theory Spec2Isabelle
  imports Complex_Main "HOL-Library.AList"
begin

section \<open>The sales dashboard page: aggregation, filters and week ranges\<close>

text \<open>
  The development embeds the logic of \<^verbatim>\<open>src/app/page.tsx\<close>: the row normalisation of
  \<^verbatim>\<open>fetchData\<close>, the filter effect of \<^verbatim>\<open>DashboardPage\<close> and \<^verbatim>\<open>getWeeksOfMonth\<close>.

  The page calls three things it does not define: the \<^verbatim>\<open>dayjs\<close> date library, the
  JavaScript coercion \<^verbatim>\<open>Number\<close> and \<^verbatim>\<open>String.prototype.localeCompare\<close>. They are
  modelled as follows.
  \<^item> A \<^verbatim>\<open>dayjs\<close> object is either invalid or a local wall-clock time: year, month index
    (0 to 11), day of the month and millisecond of the day, in the proleptic Gregorian
    calendar. Time zones and daylight-saving gaps are not modelled. A comparison with
    an invalid date is false, as a comparison with \<^verbatim>\<open>NaN\<close> is.
  \<^item> JavaScript numbers are idealised as exact reals, \<open>None\<close> standing for \<^verbatim>\<open>NaN\<close>;
    rounding and the infinities of IEEE doubles are not modelled.
  \<^item> Whatever the host decides by itself is a field of the record \<open>host\<close>: the parse of
    a date string that is not of the plain shape \<^verbatim>\<open>YYYY-MM-DD\<close>, the value of
    \<^verbatim>\<open>Number\<close> on a string that is not a plain run of decimal digits, and
    \<^verbatim>\<open>localeCompare\<close>. The theorems hold for every host.
  \<^item> An object used as a dictionary is an association list in insertion order. Its keys
    are taken to be ordinary: not the name of a property of \<^verbatim>\<open>Object.prototype\<close> and
    not an array index. The keys of \<^verbatim>\<open>dailyMap\<close> are formatted dates or \<^verbatim>\<open>Unknown\<close>, which
    are ordinary; the keys of \<^verbatim>\<open>personMap\<close> are the names in the sheet.
\<close>

subsection \<open>Decimal digits\<close>

definition isDigit :: "char \<Rightarrow> bool" where
  "isDigit c = (48 \<le> (of_char c :: nat) \<and> (of_char c :: nat) \<le> 57)"

definition digitVal :: "char \<Rightarrow> nat" where
  "digitVal c = (of_char c :: nat) - 48"

definition digitChar :: "nat \<Rightarrow> char" where
  "digitChar n = ''0123456789'' ! n"

definition natOfDigits :: "string \<Rightarrow> nat" where
  "natOfDigits s = foldl (\<lambda>acc c. 10 * acc + digitVal c) 0 s"

text \<open>\<^verbatim>\<open>String(n)\<close> for a natural number, and for an integer.\<close>

fun showNat :: "nat \<Rightarrow> string" where
  "showNat n = (if n < 10 then [digitChar n] else showNat (n div 10) @ [digitChar (n mod 10)])"

declare showNat.simps [simp del]

definition showInt :: "int \<Rightarrow> string" where
  "showInt i = (if i < 0 then CHR ''-'' # showNat (nat (- i)) else showNat (nat i))"

text \<open>\<^verbatim>\<open>Utils.s\<close> of dayjs (\<^verbatim>\<open>padStart\<close>): pad on the left up to the given length.\<close>

definition padStart :: "string \<Rightarrow> nat \<Rightarrow> char \<Rightarrow> string" where
  "padStart s len pad = (if length s \<ge> len then s else replicate (len - length s) pad @ s)"

subsection \<open>The calendar behind \<^verbatim>\<open>Date\<close>\<close>

definition isLeap :: "int \<Rightarrow> bool" where
  "isLeap y = (y mod 4 = 0 \<and> (y mod 100 \<noteq> 0 \<or> y mod 400 = 0))"

definition daysInMonth :: "int \<Rightarrow> nat \<Rightarrow> nat" where
  "daysInMonth y m =
     (if m = 1 then (if isLeap y then 29 else 28)
      else if m = 3 \<or> m = 5 \<or> m = 8 \<or> m = 10 then 30 else 31)"

definition nextMonth :: "int \<Rightarrow> nat \<Rightarrow> int \<times> nat" where
  "nextMonth y m = (if m \<ge> 11 then (y + 1, 0) else (y, m + 1))"

definition prevMonth :: "int \<Rightarrow> nat \<Rightarrow> int \<times> nat" where
  "prevMonth y m = (if m = 0 then (y - 1, 11) else (y, m - 1))"

text \<open>
  \<^verbatim>\<open>new Date(y, m, d)\<close> accepts a day outside the month and carries it into the
  following or preceding months.
\<close>

function normDay :: "int \<Rightarrow> nat \<Rightarrow> int \<Rightarrow> int \<times> nat \<times> nat" where
  "normDay y m d =
     (if d < 1 then
        (case prevMonth y m of (y', m') \<Rightarrow> normDay y' m' (d + int (daysInMonth y' m')))
      else if d > int (daysInMonth y m) then
        (case nextMonth y m of (y', m') \<Rightarrow> normDay y' m' (d - int (daysInMonth y m)))
      else (y, m, nat d))"
  by pat_completeness auto
termination
  by (relation "measure (\<lambda>(y, m, d). if d < 1 then nat (33 - d) else nat d)")
     (auto simp: daysInMonth_def prevMonth_def nextMonth_def split: if_splits)

declare normDay.simps [simp del]

text \<open>Days from 0000-01-01 to the first day of year \<open>y\<close>, and to a given day.\<close>

definition daysBeforeYear :: "int \<Rightarrow> int" where
  "daysBeforeYear y = 365 * y + (y + 3) div 4 - (y + 99) div 100 + (y + 399) div 400"

definition daysBeforeMonth :: "int \<Rightarrow> nat \<Rightarrow> int" where
  "daysBeforeMonth y m = int (sum_list (map (daysInMonth y) [0..<m]))"

text \<open>The day number counts days from 1970-01-01, the epoch of \<^verbatim>\<open>Date\<close>.\<close>

definition dayNumber :: "int \<Rightarrow> nat \<Rightarrow> int \<Rightarrow> int" where
  "dayNumber y m d = daysBeforeYear y + daysBeforeMonth y m + (d - 1) - daysBeforeYear 1970"

subsection \<open>The dayjs object\<close>

record civil =
  year_of :: int
  month_of :: nat
  date_of :: nat
  ms_of :: nat

datatype Dayjs = InvalidDate | Valid civil

definition msPerDay :: int where
  "msPerDay = 86400000"

text \<open>
  A year, a month index and a day, each possibly out of range, carried into a date, with
  the time of day kept by the caller: what \<^verbatim>\<open>setDate\<close> does on an existing date.
\<close>

definition civilOf :: "int \<Rightarrow> nat \<Rightarrow> int \<Rightarrow> nat \<Rightarrow> civil" where
  "civilOf y m d t =
     (case normDay (y + int (m div 12)) (m mod 12) d of
        (y', m', d') \<Rightarrow> \<lparr>year_of = y', month_of = m', date_of = d', ms_of = t\<rparr>)"

text \<open>
  The constructor \<^verbatim>\<open>new Date(y, m, d)\<close> does the same, after reading a year from 0 to 99
  as 1900 + y.
\<close>

definition newDate :: "int \<Rightarrow> nat \<Rightarrow> int \<Rightarrow> nat \<Rightarrow> civil" where
  "newDate y m d t = civilOf (if 0 \<le> y \<and> y \<le> 99 then 1900 + y else y) m d t"

definition isValid :: "Dayjs \<Rightarrow> bool" where
  "isValid x = (case x of InvalidDate \<Rightarrow> False | Valid _ \<Rightarrow> True)"

text \<open>\<^verbatim>\<open>valueOf\<close>: milliseconds since the epoch, \<open>None\<close> for \<^verbatim>\<open>NaN\<close>.\<close>

definition timeOf :: "civil \<Rightarrow> int" where
  "timeOf c = dayNumber (year_of c) (month_of c) (int (date_of c)) * msPerDay + int (ms_of c)"

definition valueOf :: "Dayjs \<Rightarrow> int option" where
  "valueOf x = (case x of InvalidDate \<Rightarrow> None | Valid c \<Rightarrow> Some (timeOf c))"

text \<open>The comparison \<^verbatim>\<open><\<close> and \<^verbatim>\<open><=\<close> of two values: false as soon as one is \<^verbatim>\<open>NaN\<close>.\<close>

definition js_lt :: "int option \<Rightarrow> int option \<Rightarrow> bool" where
  "js_lt a b = (case (a, b) of (Some x, Some y) \<Rightarrow> x < y | _ \<Rightarrow> False)"

definition js_le :: "int option \<Rightarrow> int option \<Rightarrow> bool" where
  "js_le a b = (case (a, b) of (Some x, Some y) \<Rightarrow> x \<le> y | _ \<Rightarrow> False)"

text \<open>\<^verbatim>\<open>$W\<close>, the day of the week, 0 for Sunday; 1970-01-01 was a Thursday.\<close>

definition weekday :: "civil \<Rightarrow> nat" where
  "weekday c = nat ((dayNumber (year_of c) (month_of c) (int (date_of c)) + 4) mod 7)"

definition startOf_day :: "Dayjs \<Rightarrow> Dayjs" where
  "startOf_day x = (case x of InvalidDate \<Rightarrow> InvalidDate | Valid c \<Rightarrow> Valid (c\<lparr>ms_of := 0\<rparr>))"

definition endOf_day :: "Dayjs \<Rightarrow> Dayjs" where
  "endOf_day x =
     (case x of InvalidDate \<Rightarrow> InvalidDate | Valid c \<Rightarrow> Valid (c\<lparr>ms_of := 86399999\<rparr>))"

text \<open>\<^verbatim>\<open>startOf('month')\<close> is \<^verbatim>\<open>new Date($y, $M, 1)\<close>.\<close>

definition startOf_month :: "Dayjs \<Rightarrow> Dayjs" where
  "startOf_month x =
     (case x of
        InvalidDate \<Rightarrow> InvalidDate
      | Valid c \<Rightarrow> Valid (newDate (year_of c) (month_of c) 1 0))"

text \<open>\<^verbatim>\<open>endOf('month')\<close> is \<^verbatim>\<open>new Date($y, $M + 1, 0)\<close> taken to the end of its day.\<close>

definition endOf_month :: "Dayjs \<Rightarrow> Dayjs" where
  "endOf_month x =
     (case x of
        InvalidDate \<Rightarrow> InvalidDate
      | Valid c \<Rightarrow> endOf_day (Valid (newDate (year_of c) (month_of c + 1) 0 0)))"

text \<open>
  \<^verbatim>\<open>endOf('week')\<close> with the default locale (weeks start on Sunday) is
  \<^verbatim>\<open>new Date($y, $M, $D + (6 - $W))\<close> taken to the end of its day: the Saturday.
\<close>

definition endOf_week :: "Dayjs \<Rightarrow> Dayjs" where
  "endOf_week x =
     (case x of
        InvalidDate \<Rightarrow> InvalidDate
      | Valid c \<Rightarrow>
          endOf_day (Valid (newDate (year_of c) (month_of c)
                             (int (date_of c) + (6 - int (weekday c))) 0)))"

text \<open>
  \<^verbatim>\<open>add(n, 'day')\<close> and \<^verbatim>\<open>subtract(n, 'day')\<close> are \<^verbatim>\<open>setDate($D + n)\<close>: the time of day
  is kept.
\<close>

definition add_day :: "Dayjs \<Rightarrow> int \<Rightarrow> Dayjs" where
  "add_day x n =
     (case x of
        InvalidDate \<Rightarrow> InvalidDate
      | Valid c \<Rightarrow> Valid (civilOf (year_of c) (month_of c) (int (date_of c) + n) (ms_of c)))"

definition subtract_day :: "Dayjs \<Rightarrow> int \<Rightarrow> Dayjs" where
  "subtract_day x n = add_day x (- n)"

text \<open>
  \<^verbatim>\<open>isBefore(that)\<close> is \<^verbatim>\<open>this < that\<close>, \<^verbatim>\<open>isAfter(that)\<close> is \<^verbatim>\<open>that < this\<close>, and
  \<^verbatim>\<open>isSame(that, 'day')\<close> is \<^verbatim>\<open>this.startOf('day') <= that && that <= this.endOf('day')\<close>.
\<close>

definition isBefore :: "Dayjs \<Rightarrow> Dayjs \<Rightarrow> bool" where
  "isBefore x that = js_lt (valueOf x) (valueOf that)"

definition isAfter :: "Dayjs \<Rightarrow> Dayjs \<Rightarrow> bool" where
  "isAfter x that = js_lt (valueOf that) (valueOf x)"

definition isSame_day :: "Dayjs \<Rightarrow> Dayjs \<Rightarrow> bool" where
  "isSame_day x that =
     (js_le (valueOf (startOf_day x)) (valueOf that) \<and> js_le (valueOf that) (valueOf (endOf_day x)))"

subsection \<open>Formatting\<close>

definition monthNames :: "string list" where
  "monthNames = [''January'', ''February'', ''March'', ''April'', ''May'', ''June'', ''July'',
     ''August'', ''September'', ''October'', ''November'', ''December'']"

definition fmt_YYYY :: "civil \<Rightarrow> string" where
  "fmt_YYYY c = padStart (showInt (year_of c)) 4 CHR ''0''"

definition fmt_MM :: "civil \<Rightarrow> string" where
  "fmt_MM c = padStart (showNat (month_of c + 1)) 2 CHR ''0''"

definition fmt_DD :: "civil \<Rightarrow> string" where
  "fmt_DD c = padStart (showNat (date_of c)) 2 CHR ''0''"

definition fmt_MMMM :: "civil \<Rightarrow> string" where
  "fmt_MMMM c = monthNames ! (month_of c mod 12)"

datatype template = YYYY_MM_DD | MMMM | YYYY

text \<open>\<^verbatim>\<open>format\<close> for the three templates the page uses on its data.\<close>

definition format :: "Dayjs \<Rightarrow> template \<Rightarrow> string" where
  "format x t =
     (case x of
        InvalidDate \<Rightarrow> ''Invalid Date''
      | Valid c \<Rightarrow>
          (case t of
             YYYY_MM_DD \<Rightarrow> fmt_YYYY c @ ''-'' @ fmt_MM c @ ''-'' @ fmt_DD c
           | MMMM \<Rightarrow> fmt_MMMM c
           | YYYY \<Rightarrow> fmt_YYYY c))"

subsection \<open>What the host decides\<close>

record host =
  Date_parse :: "string \<Rightarrow> Dayjs"
  Number_parse :: "string \<Rightarrow> real option"
  localeCompare :: "string \<Rightarrow> string \<Rightarrow> int"

text \<open>
  \<^verbatim>\<open>dayjs(s)\<close> on a string. A string of the plain shape \<^verbatim>\<open>YYYY-MM-DD\<close>, with a month
  from 01 to 12 and a day from 01 to 31, is matched by the library's own pattern and
  becomes \<^verbatim>\<open>new Date(y, m - 1, d)\<close>, local midnight. Every other string is left to the
  host.
\<close>

definition isPlainDate :: "string \<Rightarrow> bool" where
  "isPlainDate s =
     (length s = 10 \<and> list_all isDigit (take 4 s) \<and> s ! 4 = CHR ''-'' \<and>
      list_all isDigit (take 2 (drop 5 s)) \<and> s ! 7 = CHR ''-'' \<and> list_all isDigit (drop 8 s))"

definition dayjs :: "host \<Rightarrow> string \<Rightarrow> Dayjs" where
  "dayjs h s =
     (if isPlainDate s then
        (let y = natOfDigits (take 4 s);
             m = natOfDigits (take 2 (drop 5 s));
             d = natOfDigits (drop 8 s)
         in if 1 \<le> m \<and> m \<le> 12 \<and> 1 \<le> d \<and> d \<le> 31
            then Valid (newDate (int y) (m - 1) (int d) 0)
            else Date_parse h s)
      else Date_parse h s)"

text \<open>
  \<^verbatim>\<open>Number(s)\<close> on a string: a non-empty run of decimal digits is its decimal value,
  every other string is left to the host. Numbers are exact here, with \<open>None\<close> for
  \<^verbatim>\<open>NaN\<close>: what is proved of \<open>Revenue\<close> with these definitions is proved of the amounts,
  not of their doubles. The subsection on binary64 below has the doubles and the
  rounding of \<^verbatim>\<open>+=\<close>.
\<close>

definition Number_js :: "host \<Rightarrow> string \<Rightarrow> real option" where
  "Number_js h s =
     (if s \<noteq> [] \<and> list_all isDigit s then Some (real (natOfDigits s)) else Number_parse h s)"

text \<open>\<^verbatim>\<open>x || 0\<close> on a number: \<^verbatim>\<open>NaN\<close> and 0 are falsy.\<close>

definition orZero :: "real option \<Rightarrow> real" where
  "orZero v = (case v of None \<Rightarrow> 0 | Some x \<Rightarrow> (if x = 0 then 0 else x))"

subsection \<open>Rows and aggregates\<close>

text \<open>
  A field of a raw row is \<open>None\<close> when the column is missing (\<^verbatim>\<open>undefined\<close>). The
  fields of \<^verbatim>\<open>RawRow\<close> carry the prefix \<open>r\<close>, since \<^verbatim>\<open>AggregatedRow\<close> has fields of the
  same names.
\<close>

record RawRow =
  rDate :: "string option"
  rSales :: "string option"
  rSalesPerson :: "string option"
  rClient :: "string option"
  rRevenue :: "string option"
  rState :: "string option"

record AggregatedRow =
  Date :: string
  SalesCount :: nat
  Revenue :: real
  Clients :: "string list"
  Month :: string
  Year :: string

record PersonTotal =
  name :: string
  revenue :: real

record WeekRange =
  wr_start :: string
  wr_end :: string

text \<open>Truthiness of an optional string: present and not empty.\<close>

definition truthy :: "string option \<Rightarrow> bool" where
  "truthy v = (case v of None \<Rightarrow> False | Some s \<Rightarrow> s \<noteq> [])"

definition validRow :: "RawRow \<Rightarrow> bool" where
  "validRow r = (truthy (rDate r) \<and> truthy (rRevenue r))"

definition validRows :: "RawRow list \<Rightarrow> RawRow list" where
  "validRows sheetData = filter validRow sheetData"

text \<open>\<^verbatim>\<open>Number(row.Revenue) || 0\<close>; \<^verbatim>\<open>Number(undefined)\<close> is \<^verbatim>\<open>NaN\<close>.\<close>

definition rowRevenue :: "host \<Rightarrow> RawRow \<Rightarrow> real" where
  "rowRevenue h row =
     orZero (case rRevenue row of None \<Rightarrow> None | Some s \<Rightarrow> Number_js h s)"

text \<open>
  The date key, month and year of a row that passed the \<open>validRows\<close> filter (its
  \<^verbatim>\<open>Date\<close> is a string there).
\<close>

definition rowDate :: "host \<Rightarrow> RawRow \<Rightarrow> string" where
  "rowDate h row =
     (let dateObj = dayjs h (the (rDate row))
      in if isValid dateObj then format dateObj YYYY_MM_DD else ''Unknown'')"

definition rowMonth :: "host \<Rightarrow> RawRow \<Rightarrow> string" where
  "rowMonth h row =
     (let dateObj = dayjs h (the (rDate row))
      in if isValid dateObj then format dateObj MMMM else ''Unknown'')"

definition rowYear :: "host \<Rightarrow> RawRow \<Rightarrow> string" where
  "rowYear h row =
     (let dateObj = dayjs h (the (rDate row))
      in if isValid dateObj then format dateObj YYYY else ''Unknown'')"

text \<open>
  \<^verbatim>\<open>dailyMap\<close> and \<^verbatim>\<open>personMap\<close> are objects used as dictionaries: association lists in
  insertion order, \<open>AList.update\<close> overwriting an existing key in place and appending a
  new one. The body of the \<^verbatim>\<open>forEach\<close>, on \<^verbatim>\<open>dailyMap\<close>: the entry is created when the
  key is new, then counted, added to, and given the client when it is new for this date.
\<close>

definition dailyStep :: "host \<Rightarrow> (string \<times> AggregatedRow) list \<Rightarrow> RawRow \<Rightarrow> (string \<times> AggregatedRow) list" where
  "dailyStep h dailyMap row =
     (let date = rowDate h row;
          e0 = (case map_of dailyMap date of
                  None \<Rightarrow> \<lparr>Date = date, SalesCount = 0, Revenue = 0, Clients = [],
                            Month = rowMonth h row, Year = rowYear h row\<rparr>
                | Some e \<Rightarrow> e);
          e1 = e0\<lparr>SalesCount := SalesCount e0 + 1\<rparr>;
          e2 = e1\<lparr>Revenue := Revenue e1 + rowRevenue h row\<rparr>;
          e3 = (if truthy (rClient row) \<and> the (rClient row) \<notin> set (Clients e2)
                then e2\<lparr>Clients := Clients e2 @ [the (rClient row)]\<rparr> else e2)
      in AList.update date e3 dailyMap)"

text \<open>
  On \<^verbatim>\<open>personMap\<close>: \<^verbatim>\<open>row['Sales Person'] || 'Unknown'\<close>, a missing or zero total starts at 0.
  The object is a list of keys with their totals, in the order in which the keys were
  first written. That is the order of \<^verbatim>\<open>Object.entries\<close> for the names that are not
  written like an array index (those come first, in ascending order, in JavaScript), and
  a name that \<^verbatim>\<open>Object.prototype\<close> has, such as \<^verbatim>\<open>constructor\<close>, is not told apart from
  any other name here.
\<close>

definition rowPerson :: "RawRow \<Rightarrow> string" where
  "rowPerson row = (if truthy (rSalesPerson row) then the (rSalesPerson row) else ''Unknown'')"

definition personStep :: "host \<Rightarrow> (string \<times> real) list \<Rightarrow> RawRow \<Rightarrow> (string \<times> real) list" where
  "personStep h personMap row =
     (let person = rowPerson row;
          cur = (case map_of personMap person of None \<Rightarrow> 0 | Some v \<Rightarrow> (if v = 0 then 0 else v))
      in AList.update person (cur + rowRevenue h row) personMap)"

definition forEachRow :: "host \<Rightarrow> RawRow list \<Rightarrow> (string \<times> AggregatedRow) list \<times> (string \<times> real) list" where
  "forEachRow h rows =
     foldl (\<lambda>(dailyMap, personMap) row. (dailyStep h dailyMap row, personStep h personMap row))
       ([], []) rows"

text \<open>
  \<^verbatim>\<open>Array.prototype.sort\<close> with a comparator: stable, \<open>a\<close> stays before \<open>b\<close> when the
  comparator is not positive.
\<close>

fun insertBy :: "('a \<Rightarrow> 'a \<Rightarrow> int) \<Rightarrow> 'a \<Rightarrow> 'a list \<Rightarrow> 'a list" where
  "insertBy cmp x [] = [x]"
| "insertBy cmp x (y # ys) = (if cmp x y \<le> 0 then x # y # ys else y # insertBy cmp x ys)"

definition sortBy :: "('a \<Rightarrow> 'a \<Rightarrow> int) \<Rightarrow> 'a list \<Rightarrow> 'a list" where
  "sortBy cmp xs = foldr (insertBy cmp) xs []"

text \<open>\<^verbatim>\<open>Array.from(new Set(xs))\<close>: the first occurrence of each element, in order.\<close>

fun fromSet :: "'a list \<Rightarrow> 'a list \<Rightarrow> 'a list" where
  "fromSet seen [] = rev seen"
| "fromSet seen (x # xs) = (if x \<in> set seen then fromSet seen xs else fromSet (x # seen) xs)"

definition aggregate :: "host \<Rightarrow> RawRow list \<Rightarrow> AggregatedRow list" where
  "aggregate h sheetData =
     sortBy (\<lambda>a b. localeCompare h (Date a) (Date b)) (map snd (fst (forEachRow h (validRows sheetData))))"

definition personArray :: "host \<Rightarrow> RawRow list \<Rightarrow> PersonTotal list" where
  "personArray h sheetData =
     map (\<lambda>(n, r). \<lparr>name = n, revenue = r\<rparr>) (snd (forEachRow h (validRows sheetData)))"

definition uniqueMonths :: "AggregatedRow list \<Rightarrow> string list" where
  "uniqueMonths aggregated = fromSet [] (map (\<lambda>r. Month r @ '' '' @ Year r) aggregated)"

subsection \<open>The state of the page\<close>

datatype Filter = Daily | Weekly | Monthly | AllData

datatype Chart = SalesChart | RevenueChart | PersonChart

record PageState =
  data :: "AggregatedRow list"
  filteredData :: "AggregatedRow list"
  salesByPerson :: "PersonTotal list"
  filter_st :: Filter
  selectedMonth :: string
  availableMonths :: "string list"
  showWeekPicker :: bool
  selectedWeek :: "WeekRange option"
  selectedChart :: Chart
  selectedYear :: string

definition initialState :: PageState where
  "initialState =
     \<lparr>data = [], filteredData = [], salesByPerson = [], filter_st = AllData,
      selectedMonth = ''all'', availableMonths = [], showWeekPicker = False,
      selectedWeek = None, selectedChart = SalesChart, selectedYear = ''all''\<rparr>"

text \<open>\<^verbatim>\<open>fetchData\<close> on the rows of a successful response: the four \<^verbatim>\<open>set\<close> calls.\<close>

definition fetchData :: "host \<Rightarrow> RawRow list \<Rightarrow> PageState \<Rightarrow> PageState" where
  "fetchData h sheetData st =
     (let aggregated = aggregate h sheetData
      in st\<lparr>data := aggregated, filteredData := aggregated,
            salesByPerson := personArray h sheetData,
            availableMonths := uniqueMonths aggregated\<rparr>)"

subsection \<open>Auxiliary notions for the proofs about \<^verbatim>\<open>fetchData\<close>\<close>

text \<open>The entry a new date key starts from, and what one row does to the entry of its date.\<close>

definition freshEntry :: "host \<Rightarrow> RawRow \<Rightarrow> AggregatedRow" where
  "freshEntry h row =
     \<lparr>Date = rowDate h row, SalesCount = 0, Revenue = 0, Clients = [],
      Month = rowMonth h row, Year = rowYear h row\<rparr>"

definition touch :: "host \<Rightarrow> RawRow \<Rightarrow> AggregatedRow \<Rightarrow> AggregatedRow" where
  "touch h row e0 =
     (let e2 = e0\<lparr>SalesCount := SalesCount e0 + 1, Revenue := Revenue e0 + rowRevenue h row\<rparr>
      in if truthy (rClient row) \<and> the (rClient row) \<notin> set (Clients e0)
         then e2\<lparr>Clients := Clients e0 @ [the (rClient row)]\<rparr> else e2)"

definition entryOr :: "host \<Rightarrow> RawRow \<Rightarrow> (string \<times> AggregatedRow) list \<Rightarrow> AggregatedRow" where
  "entryOr h row m = (case map_of m (rowDate h row) of None \<Rightarrow> freshEntry h row | Some e \<Rightarrow> e)"

text \<open>What holds of every entry of the map built from the rows.\<close>

definition entryOk :: "host \<Rightarrow> RawRow list \<Rightarrow> string \<Rightarrow> AggregatedRow \<Rightarrow> bool" where
  "entryOk h rows k e =
     (Date e = k \<and> distinct (Clients e) \<and>
      (\<exists>r \<in> set rows. k = rowDate h r \<and> Month e = rowMonth h r \<and> Year e = rowYear h r))"

subsection \<open>The filter effect\<close>

text \<open>The label \<^verbatim>\<open>`${r.Month} ${r.Year}`\<close> of an aggregate.\<close>

definition monthLabel :: "AggregatedRow \<Rightarrow> string" where
  "monthLabel r = Month r @ '' '' @ Year r"

text \<open>
  The first part of the effect: the branch on \<^verbatim>\<open>filter\<close>. The argument \<open>now\<close> is the
  value of \<^verbatim>\<open>dayjs()\<close> when the effect runs.
\<close>

definition modeFilter ::
    "host \<Rightarrow> Dayjs \<Rightarrow> Filter \<Rightarrow> string \<Rightarrow> WeekRange option \<Rightarrow> AggregatedRow list \<Rightarrow> AggregatedRow list" where
  "modeFilter h now f selMonth selWeek rows =
     (case f of
        Daily \<Rightarrow> filter (\<lambda>item. isSame_day (dayjs h (Date item)) now) rows
      | Weekly \<Rightarrow>
          (case selWeek of
             Some w \<Rightarrow>
               (if selMonth \<noteq> ''all'' then
                  (let start = dayjs h (wr_start w);
                       end' = dayjs h (wr_end w)
                   in filter (\<lambda>item. let d = dayjs h (Date item)
                                     in \<not> isBefore d start \<and> \<not> isAfter d end') rows)
                else filter (\<lambda>item. isAfter (dayjs h (Date item)) (subtract_day now 7)) rows)
           | None \<Rightarrow> filter (\<lambda>item. isAfter (dayjs h (Date item)) (subtract_day now 7)) rows)
      | Monthly \<Rightarrow> filter (\<lambda>item. isAfter (dayjs h (Date item)) (subtract_day now 30)) rows
      | AllData \<Rightarrow> rows)"

text \<open>The second part: the month filter, skipped in weekly mode.\<close>

definition applyFilters ::
    "host \<Rightarrow> Dayjs \<Rightarrow> Filter \<Rightarrow> string \<Rightarrow> WeekRange option \<Rightarrow> AggregatedRow list \<Rightarrow> AggregatedRow list" where
  "applyFilters h now f selMonth selWeek rows =
     (let filtered = modeFilter h now f selMonth selWeek rows
      in if selMonth \<noteq> ''all'' \<and> f \<noteq> Weekly
         then filter (\<lambda>r. monthLabel r = selMonth) filtered
         else filtered)"

text \<open>The effect returns at once when there is no data, and sets \<^verbatim>\<open>filteredData\<close> otherwise.\<close>

definition filterEffect :: "host \<Rightarrow> Dayjs \<Rightarrow> PageState \<Rightarrow> PageState" where
  "filterEffect h now st =
     (if data st = [] then st
      else st\<lparr>filteredData :=
                applyFilters h now (filter_st st) (selectedMonth st) (selectedWeek st) (data st)\<rparr>)"

text \<open>
  The handlers of the controls. Choosing a month triggers the effect that clears the
  selected week.
\<close>

definition selectMonth :: "string \<Rightarrow> PageState \<Rightarrow> PageState" where
  "selectMonth m st = st\<lparr>selectedMonth := m, selectedWeek := None\<rparr>"

definition clickDaily :: "PageState \<Rightarrow> PageState" where
  "clickDaily st = st\<lparr>filter_st := Daily, selectedWeek := None\<rparr>"

definition clickWeekly :: "PageState \<Rightarrow> PageState" where
  "clickWeekly st =
     (if selectedMonth st \<noteq> ''all''
      then st\<lparr>filter_st := Weekly, showWeekPicker := True\<rparr>
      else st\<lparr>filter_st := Weekly, selectedWeek := None\<rparr>)"

definition clickMonthly :: "PageState \<Rightarrow> PageState" where
  "clickMonthly st = st\<lparr>filter_st := Monthly, selectedWeek := None\<rparr>"

definition clickAll :: "PageState \<Rightarrow> PageState" where
  "clickAll st = st\<lparr>filter_st := AllData, selectedWeek := None\<rparr>"

definition pickWeek :: "WeekRange \<Rightarrow> PageState \<Rightarrow> PageState" where
  "pickWeek w st = st\<lparr>selectedWeek := Some w, showWeekPicker := False\<rparr>"

text \<open>
  A filter state as a whole: mode, month, week, year and chart. The data of the pie chart
  is \<^verbatim>\<open>salesByPerson\<close>.
\<close>

definition setFilterState ::
    "Filter \<Rightarrow> string \<Rightarrow> WeekRange option \<Rightarrow> string \<Rightarrow> Chart \<Rightarrow> PageState \<Rightarrow> PageState" where
  "setFilterState f m w y c st =
     st\<lparr>filter_st := f, selectedMonth := m, selectedWeek := w, selectedYear := y,
        selectedChart := c\<rparr>"

definition personSeries :: "PageState \<Rightarrow> PersonTotal list" where
  "personSeries st = salesByPerson st"

subsection \<open>The weeks of a month\<close>

text \<open>\<^verbatim>\<open>s.split(c)\<close> with a separator of one character.\<close>

fun split_js :: "char \<Rightarrow> string \<Rightarrow> string list" where
  "split_js c [] = [[]]"
| "split_js c (x # xs) =
     (if x = c then [] # split_js c xs
      else (case split_js c xs of [] \<Rightarrow> [[x]] | p # ps \<Rightarrow> (x # p) # ps))"

text \<open>An element of a destructured array inside a template literal.\<close>

definition element :: "string list \<Rightarrow> nat \<Rightarrow> string" where
  "element parts i = (if i < length parts then parts ! i else ''undefined'')"

text \<open>
  The \<^verbatim>\<open>while\<close> loop. The result is \<open>None\<close> when the loop does not return.
\<close>

partial_function (option) weeksLoop :: "Dayjs \<Rightarrow> Dayjs \<Rightarrow> WeekRange list \<Rightarrow> WeekRange list option" where
  "weeksLoop endOfMonth current weeks =
     (if isBefore current endOfMonth \<or> isSame_day current endOfMonth then
        (let weekStart = current;
             weekEnd0 = endOf_week weekStart;
             weekEnd = (if isAfter weekEnd0 endOfMonth then endOfMonth else weekEnd0)
         in weeksLoop endOfMonth (add_day weekEnd 1)
              (weeks @ [\<lparr>wr_start = format weekStart YYYY_MM_DD,
                          wr_end = format weekEnd YYYY_MM_DD\<rparr>]))
      else Some weeks)"

declare weeksLoop.simps [code]

definition monthStart :: "host \<Rightarrow> string \<Rightarrow> Dayjs" where
  "monthStart h monthYear =
     (let parts = split_js CHR '' '' monthYear;
          monthName = element parts 0;
          year = element parts 1
      in startOf_month (dayjs h (monthName @ '' 1, '' @ year)))"

definition getWeeksOfMonth :: "host \<Rightarrow> string \<Rightarrow> WeekRange list option" where
  "getWeeksOfMonth h monthYear =
     (let startOfMonth = monthStart h monthYear;
          endOfMonth = endOf_month startOfMonth
      in weeksLoop endOfMonth startOfMonth [])"

subsection \<open>A host for the examples\<close>

text \<open>
  The examples run on a host that compares strings by code unit, reads the two month
  strings they use as a browser does, and has \<^verbatim>\<open>Number('')\<close> equal to 0; every other
  string left to it is an invalid date and not a number.
\<close>

fun codeUnitCompare :: "string \<Rightarrow> string \<Rightarrow> int" where
  "codeUnitCompare [] [] = 0"
| "codeUnitCompare [] (y # ys) = - 1"
| "codeUnitCompare (x # xs) [] = 1"
| "codeUnitCompare (x # xs) (y # ys) =
     (if (of_char x :: nat) < of_char y then - 1
      else if (of_char y :: nat) < of_char x then 1
      else codeUnitCompare xs ys)"

definition sampleHost :: host where
  "sampleHost =
     \<lparr>Date_parse = (\<lambda>s.
         if s = ''April 1, 2024'' then Valid \<lparr>year_of = 2024, month_of = 3, date_of = 1, ms_of = 0\<rparr>
         else if s = ''May 1, 2024'' then Valid \<lparr>year_of = 2024, month_of = 4, date_of = 1, ms_of = 0\<rparr>
         else InvalidDate),
      Number_parse = (\<lambda>s. if s = [] then Some 0 else None),
      localeCompare = codeUnitCompare\<rparr>"

definition sampleRow :: "string \<Rightarrow> string \<Rightarrow> string \<Rightarrow> RawRow" where
  "sampleRow d r c =
     \<lparr>rDate = Some d, rSales = None, rSalesPerson = None, rClient = Some c,
      rRevenue = Some r, rState = None\<rparr>"

definition sampleAggregate :: "string \<Rightarrow> string \<Rightarrow> string \<Rightarrow> AggregatedRow" where
  "sampleAggregate d m y =
     \<lparr>Date = d, SalesCount = 1, Revenue = 10, Clients = [], Month = m, Year = y\<rparr>"

text \<open>
  The sheet of the examples: the three rows of the specification's scenario (with one
  client on both days), a row whose date and revenue do not parse, and a row without
  revenue.
\<close>

definition sampleSheet :: "RawRow list" where
  "sampleSheet =
     [sampleRow ''2024-04-01'' ''100'' ''A'', sampleRow ''2024-04-01'' ''50'' ''A'',
      sampleRow ''2024-04-02'' ''75'' ''A'', sampleRow ''n/a'' ''abc'' ''B'',
      (sampleRow ''2024-04-03'' ''5'' ''C'')\<lparr>rRevenue := None\<rparr>]"

text \<open>The tests of the weekly branch, on the parsed date of an aggregate.\<close>

definition inWeek :: "host \<Rightarrow> civil \<Rightarrow> civil \<Rightarrow> AggregatedRow \<Rightarrow> bool" where
  "inWeek h s e item =
     (case dayjs h (Date item) of
        InvalidDate \<Rightarrow> False
      | Valid d \<Rightarrow> timeOf s \<le> timeOf d \<and> timeOf d \<le> timeOf e)"

definition laterThan :: "host \<Rightarrow> Dayjs \<Rightarrow> AggregatedRow \<Rightarrow> bool" where
  "laterThan h t item =
     (case (dayjs h (Date item), t) of
        (Valid d, Valid c) \<Rightarrow> timeOf c < timeOf d
      | _ \<Rightarrow> False)"

definition hasDate :: "host \<Rightarrow> AggregatedRow \<Rightarrow> bool" where
  "hasDate h item = isValid (dayjs h (Date item))"

text \<open>Aggregates and an instant for the examples of the filters: 10 April 2024, noon.\<close>

definition sampleData :: "AggregatedRow list" where
  "sampleData =
     [sampleAggregate ''2024-04-03'' ''April'' ''2024'',
      sampleAggregate ''2024-04-08'' ''April'' ''2024'',
      sampleAggregate ''2024-04-13'' ''April'' ''2024'',
      sampleAggregate ''2024-04-20'' ''April'' ''2024'',
      sampleAggregate ''Unknown'' ''Unknown'' ''Unknown'']"

definition sampleNow :: Dayjs where
  "sampleNow = Valid \<lparr>year_of = 2024, month_of = 3, date_of = 10, ms_of = 43200000\<rparr>"

definition sampleWeek :: WeekRange where
  "sampleWeek = \<lparr>wr_start = ''2024-04-07'', wr_end = ''2024-04-13''\<rparr>"

subsection \<open>Week ranges as pairs of days\<close>

text \<open>
  A range of the month \<open>m\<close> of the year \<open>y\<close> given by its first and last day of the month,
  and the ranges the loop produces from day \<open>d\<close> on, as such pairs: each one ends on its
  Saturday or on the last day of the month, whichever comes first.
\<close>

definition dayOf :: "int \<Rightarrow> nat \<Rightarrow> nat \<Rightarrow> Dayjs" where
  "dayOf y m d = Valid \<lparr>year_of = y, month_of = m, date_of = d, ms_of = 0\<rparr>"

definition rangeOf :: "int \<Rightarrow> nat \<Rightarrow> nat \<times> nat \<Rightarrow> WeekRange" where
  "rangeOf y m p =
     \<lparr>wr_start = format (dayOf y m (fst p)) YYYY_MM_DD, wr_end = format (dayOf y m (snd p)) YYYY_MM_DD\<rparr>"

definition weekdayOf :: "int \<Rightarrow> nat \<Rightarrow> nat \<Rightarrow> nat" where
  "weekdayOf y m d = weekday \<lparr>year_of = y, month_of = m, date_of = d, ms_of = 0\<rparr>"

function monthRanges :: "int \<Rightarrow> nat \<Rightarrow> nat \<Rightarrow> (nat \<times> nat) list" where
  "monthRanges y m d =
     (if d < 1 \<or> daysInMonth y m < d then []
      else (let e = min (d + (6 - weekdayOf y m d)) (daysInMonth y m)
            in (d, e) # monthRanges y m (Suc e)))"
  by pat_completeness auto
termination
  by (relation "measure (\<lambda>(y, m, d). Suc (daysInMonth y m) - d)") auto

declare monthRanges.simps [simp del]

text \<open>The days of a range, and the number of its days.\<close>

definition daysOf :: "nat \<times> nat \<Rightarrow> nat list" where
  "daysOf p = [fst p..<Suc (snd p)]"

definition spanOf :: "nat \<times> nat \<Rightarrow> nat" where
  "spanOf p = Suc (snd p) - fst p"

subsection \<open>Revenue in binary64\<close>

text \<open>
  The definitions above add revenues as exact numbers. The numbers of the page are
  binary64 doubles, and \<^verbatim>\<open>+=\<close> rounds. This subsection is the accumulation of the revenue
  in \<^verbatim>\<open>fetchData\<close> once more, with that addition.

  Every finite double is an integer multiple of \<open>2 ^ -1074\<close>, the smallest positive
  double: \<open>Finite n\<close> stands for \<open>n * 2 ^ -1074\<close>. The sign of zero is not kept: the
  accumulators start at \<open>+0\<close>, \<^verbatim>\<open>x || 0\<close> turns \<open>-0\<close> into \<open>+0\<close>, and a sum that is zero
  is \<open>+0\<close> when rounding to nearest.
\<close>

datatype double = Finite int | PosInf | NegInf | NaN

text \<open>The double with mantissa \<open>m\<close> and binary exponent \<open>e\<close>, for \<open>e\<close> from -1074 on.\<close>

definition dbl :: "int \<Rightarrow> int \<Rightarrow> double" where
  "dbl m e = Finite (m * 2 ^ nat (e + 1074))"

text \<open>The number of bits of a natural number.\<close>

fun bitlen :: "nat \<Rightarrow> nat" where
  "bitlen n = (if n = 0 then 0 else Suc (bitlen (n div 2)))"

declare bitlen.simps [simp del]

text \<open>
  Rounding a magnitude to 53 significant bits, to the nearest, ties to the even
  mantissa: \<open>roundAt a s\<close> is the mantissa when the \<open>s\<close> lowest bits are rounded away. Then
  rounding an exact multiple of \<open>2 ^ -1074\<close> to a double, with overflow to an infinity
  from \<open>2 ^ 1024\<close> on.
\<close>

definition roundAt :: "nat \<Rightarrow> nat \<Rightarrow> nat" where
  "roundAt a s =
     (let q = a div 2 ^ s;
          r = a mod 2 ^ s
      in if 2 ^ s < 2 * r \<or> (2 * r = 2 ^ s \<and> odd q) then q + 1 else q)"

definition roundMag :: "nat \<Rightarrow> nat" where
  "roundMag a = (let s = bitlen a - 53 in roundAt a s * 2 ^ s)"

definition round64 :: "int \<Rightarrow> double" where
  "round64 n =
     (let v = roundMag (nat \<bar>n\<bar>)
      in if 2 ^ 2098 \<le> v then (if n < 0 then NegInf else PosInf)
         else Finite (if n < 0 then - int v else int v))"

text \<open>The addition of two numbers.\<close>

fun add64 :: "double \<Rightarrow> double \<Rightarrow> double" where
  "add64 (Finite a) (Finite b) = round64 (a + b)"
| "add64 NaN y = NaN"
| "add64 x NaN = NaN"
| "add64 PosInf NegInf = NaN"
| "add64 NegInf PosInf = NaN"
| "add64 PosInf y = PosInf"
| "add64 x PosInf = PosInf"
| "add64 NegInf y = NegInf"
| "add64 x NegInf = NegInf"

text \<open>
  \<^verbatim>\<open>Number(s)\<close> as a double: a run of decimal digits is the double nearest to its value;
  every other string is left to the host, here the function \<open>num\<close>.
\<close>

definition Number_js64 :: "(string \<Rightarrow> double) \<Rightarrow> string \<Rightarrow> double" where
  "Number_js64 num s =
     (if s \<noteq> [] \<and> list_all isDigit s then round64 (int (natOfDigits s) * 2 ^ 1074) else num s)"

definition orZero64 :: "double \<Rightarrow> double" where
  "orZero64 v =
     (case v of NaN \<Rightarrow> Finite 0 | Finite n \<Rightarrow> (if n = 0 then Finite 0 else Finite n) | x \<Rightarrow> x)"

definition rowRevenue64 :: "(string \<Rightarrow> double) \<Rightarrow> RawRow \<Rightarrow> double" where
  "rowRevenue64 num row =
     orZero64 (case rRevenue row of None \<Rightarrow> NaN | Some s \<Rightarrow> Number_js64 num s)"

text \<open>\<^verbatim>\<open>AggregatedRow\<close> with its revenue a double, and the body of the \<^verbatim>\<open>forEach\<close> on it.\<close>

record AggregatedRow64 =
  Date64 :: string
  SalesCount64 :: nat
  Revenue64 :: double
  Clients64 :: "string list"
  Month64 :: string
  Year64 :: string

definition dailyStep64 ::
    "host \<Rightarrow> (string \<Rightarrow> double) \<Rightarrow> (string \<times> AggregatedRow64) list \<Rightarrow> RawRow \<Rightarrow> (string \<times> AggregatedRow64) list" where
  "dailyStep64 h num dailyMap row =
     (let date = rowDate h row;
          e0 = (case map_of dailyMap date of
                  None \<Rightarrow> \<lparr>Date64 = date, SalesCount64 = 0, Revenue64 = Finite 0, Clients64 = [],
                            Month64 = rowMonth h row, Year64 = rowYear h row\<rparr>
                | Some e \<Rightarrow> e);
          e1 = e0\<lparr>SalesCount64 := SalesCount64 e0 + 1\<rparr>;
          e2 = e1\<lparr>Revenue64 := add64 (Revenue64 e1) (rowRevenue64 num row)\<rparr>;
          e3 = (if truthy (rClient row) \<and> the (rClient row) \<notin> set (Clients64 e2)
                then e2\<lparr>Clients64 := Clients64 e2 @ [the (rClient row)]\<rparr> else e2)
      in AList.update date e3 dailyMap)"

definition aggregate64 :: "host \<Rightarrow> (string \<Rightarrow> double) \<Rightarrow> RawRow list \<Rightarrow> AggregatedRow64 list" where
  "aggregate64 h num sheetData =
     sortBy (\<lambda>a b. localeCompare h (Date64 a) (Date64 b))
       (map snd (foldl (dailyStep64 h num) [] (validRows sheetData)))"

text \<open>
  \<^verbatim>\<open>totalRevenue\<close>, the \<^verbatim>\<open>reduce\<close> over the aggregates, and the sum of the parsed revenues
  of the rows in the order of the sheet.
\<close>

definition totalRevenue64 :: "AggregatedRow64 list \<Rightarrow> double" where
  "totalRevenue64 rows = foldl (\<lambda>sum r. add64 sum (Revenue64 r)) (Finite 0) rows"

definition sumRevenue64 :: "(string \<Rightarrow> double) \<Rightarrow> RawRow list \<Rightarrow> double" where
  "sumRevenue64 num rows = foldl add64 (Finite 0) (map (rowRevenue64 num) rows)"

text \<open>
  The sheet of the example in binary64: 0.1 and 2.2 on one date, 0.2 on another, with
  the doubles a browser reads them as.
\<close>

definition sampleNumber64 :: "string \<Rightarrow> double" where
  "sampleNumber64 s =
     (if s = ''0.1'' then dbl 3602879701896397 (- 55)
      else if s = ''0.2'' then dbl 3602879701896397 (- 54)
      else if s = ''2.2'' then dbl 2476979795053773 (- 50)
      else NaN)"

definition sampleSheet64 :: "RawRow list" where
  "sampleSheet64 =
     [sampleRow ''2024-04-01'' ''0.1'' ''A'', sampleRow ''2024-04-02'' ''0.2'' ''A'',
      sampleRow ''2024-04-01'' ''2.2'' ''A'']"

text \<open>
  The value of a finite double in units of \<open>2 ^ -1074\<close>, and the double of a whole
  number (exact up to \<open>2 ^ 53\<close>).
\<close>

definition units :: "double \<Rightarrow> int" where
  "units d = (case d of Finite n \<Rightarrow> n | _ \<Rightarrow> 0)"

definition whole :: "int \<Rightarrow> double" where
  "whole n = Finite (n * 2 ^ 1074)"

text \<open>For the proofs: the entry a new date key starts from, and what one row does to an entry.\<close>

definition freshEntry64 :: "host \<Rightarrow> RawRow \<Rightarrow> AggregatedRow64" where
  "freshEntry64 h row =
     \<lparr>Date64 = rowDate h row, SalesCount64 = 0, Revenue64 = Finite 0, Clients64 = [],
      Month64 = rowMonth h row, Year64 = rowYear h row\<rparr>"

definition touch64 :: "(string \<Rightarrow> double) \<Rightarrow> RawRow \<Rightarrow> AggregatedRow64 \<Rightarrow> AggregatedRow64" where
  "touch64 num row e0 =
     (let e2 = e0\<lparr>SalesCount64 := SalesCount64 e0 + 1,
                 Revenue64 := add64 (Revenue64 e0) (rowRevenue64 num row)\<rparr>
      in if truthy (rClient row) \<and> the (rClient row) \<notin> set (Clients64 e0)
         then e2\<lparr>Clients64 := Clients64 e0 @ [the (rClient row)]\<rparr> else e2)"

definition entryOr64 :: "host \<Rightarrow> RawRow \<Rightarrow> (string \<times> AggregatedRow64) list \<Rightarrow> AggregatedRow64" where
  "entryOr64 h row m = (case map_of m (rowDate h row) of None \<Rightarrow> freshEntry64 h row | Some e \<Rightarrow> e)"

text \<open>The whole number a row of the first example sheet contributes.\<close>

definition sampleAmount :: "RawRow \<Rightarrow> int" where
  "sampleAmount r =
     (case rRevenue r of
        None \<Rightarrow> 0
      | Some s \<Rightarrow> if s \<noteq> [] \<and> list_all isDigit s then int (natOfDigits s) else 0)"

text \<open>The fields of an aggregate other than its revenue.\<close>

definition restOf :: "AggregatedRow \<Rightarrow> string \<times> nat \<times> string list \<times> string \<times> string" where
  "restOf e = (Date e, SalesCount e, Clients e, Month e, Year e)"

definition restOf64 :: "AggregatedRow64 \<Rightarrow> string \<times> nat \<times> string list \<times> string \<times> string" where
  "restOf64 e = (Date64 e, SalesCount64 e, Clients64 e, Month64 e, Year64 e)"

section \<open>Properties of the row normalisation\<close>

lemma dailyStep_update:
  "dailyStep h m row = AList.update (rowDate h row) (touch h row (entryOr h row m)) m"
  by (auto simp add: dailyStep_def touch_def entryOr_def freshEntry_def Let_def
      split: option.splits)

lemma forEachRow_fold:
  "foldl (\<lambda>(dm, pm) row. (dailyStep h dm row, personStep h pm row)) (a, b) rows
   = (foldl (dailyStep h) a rows, foldl (personStep h) b rows)"
  by (induction rows arbitrary: a b) simp_all

lemma fst_forEachRow: "fst (forEachRow h rows) = foldl (dailyStep h) [] rows"
  by (simp add: forEachRow_def forEachRow_fold)

lemma snd_forEachRow: "snd (forEachRow h rows) = foldl (personStep h) [] rows"
  by (simp add: forEachRow_def forEachRow_fold)

lemma sum_insertBy:
  fixes f :: "'a \<Rightarrow> 'b::comm_monoid_add"
  shows "sum_list (map f (insertBy cmp x xs)) = f x + sum_list (map f xs)"
  by (induction xs) (simp_all add: ac_simps)

lemma sum_sortBy:
  fixes f :: "'a \<Rightarrow> 'b::comm_monoid_add"
  shows "sum_list (map f (sortBy cmp xs)) = sum_list (map f xs)"
  unfolding sortBy_def by (induction xs) (simp_all add: sum_insertBy)

lemma set_insertBy: "set (insertBy cmp x xs) = insert x (set xs)"
  by (induction xs) auto

lemma set_sortBy: "set (sortBy cmp xs) = set xs"
  unfolding sortBy_def by (induction xs) (simp_all add: set_insertBy)

lemma sum_update_None:
  fixes f :: "'v \<Rightarrow> 'b::comm_monoid_add"
  shows "map_of al k = None \<Longrightarrow>
    sum_list (map (\<lambda>p. f (snd p)) (AList.update k v al)) = sum_list (map (\<lambda>p. f (snd p)) al) + f v"
  by (induction al) (auto simp: ac_simps split: if_splits)

lemma sum_update_Some:
  fixes f :: "'v \<Rightarrow> 'b::comm_monoid_add"
  shows "map_of al k = Some e \<Longrightarrow>
    sum_list (map (\<lambda>p. f (snd p)) (AList.update k v al)) + f e = sum_list (map (\<lambda>p. f (snd p)) al) + f v"
  by (induction al) (auto simp: ac_simps split: if_splits)

lemma SalesCount_touch: "SalesCount (touch h row e) = SalesCount e + 1"
  by (simp add: touch_def Let_def)

lemma Revenue_touch: "Revenue (touch h row e) = Revenue e + rowRevenue h row"
  by (simp add: touch_def Let_def)

lemma sum_SalesCount_step:
  "sum_list (map (\<lambda>p. SalesCount (snd p)) (dailyStep h m row)) = sum_list (map (\<lambda>p. SalesCount (snd p)) m) + 1"
proof (cases "map_of m (rowDate h row)")
  case None
  then show ?thesis
    by (simp add: dailyStep_update sum_update_None SalesCount_touch entryOr_def freshEntry_def)
next
  case (Some e)
  from sum_update_Some [OF Some, of SalesCount "touch h row e"]
  show ?thesis using Some
    by (simp add: dailyStep_update SalesCount_touch entryOr_def)
qed

lemma sum_Revenue_step:
  "sum_list (map (\<lambda>p. Revenue (snd p)) (dailyStep h m row)) = sum_list (map (\<lambda>p. Revenue (snd p)) m) + rowRevenue h row"
proof (cases "map_of m (rowDate h row)")
  case None
  then show ?thesis
    by (simp add: dailyStep_update sum_update_None Revenue_touch entryOr_def freshEntry_def)
next
  case (Some e)
  from sum_update_Some [OF Some, of Revenue "touch h row e"]
  show ?thesis using Some
    by (simp add: dailyStep_update Revenue_touch entryOr_def)
qed

lemma sum_SalesCount_fold:
  "sum_list (map (\<lambda>p. SalesCount (snd p)) (foldl (dailyStep h) [] rows)) = length rows"
  by (induction rows rule: rev_induct) (simp_all add: sum_SalesCount_step)

lemma sum_Revenue_fold:
  "sum_list (map (\<lambda>p. Revenue (snd p)) (foldl (dailyStep h) [] rows)) = sum_list (map (rowRevenue h) rows)"
  by (induction rows rule: rev_induct) (simp_all add: sum_Revenue_step)

lemma data_fetchData: "data (fetchData h rows st) = aggregate h rows"
  by (simp add: fetchData_def Let_def)

lemma Date_touch [simp]: "Date (touch h row e) = Date e"
  and Month_touch [simp]: "Month (touch h row e) = Month e"
  and Year_touch [simp]: "Year (touch h row e) = Year e"
  by (simp_all add: touch_def Let_def)

lemma distinct_Clients_touch: "distinct (Clients e) \<Longrightarrow> distinct (Clients (touch h row e))"
  by (simp add: touch_def Let_def)

lemma Clients_touch_mono: "c \<in> set (Clients e) \<Longrightarrow> c \<in> set (Clients (touch h row e))"
  by (simp add: touch_def Let_def)

lemma Clients_touch_own: "truthy (rClient row) \<Longrightarrow> the (rClient row) \<in> set (Clients (touch h row e))"
  by (simp add: touch_def Let_def)

lemma map_of_dailyStep:
  "map_of (dailyStep h m row) = (map_of m)(rowDate h row \<mapsto> touch h row (entryOr h row m))"
  by (simp add: dailyStep_update update_conv')

lemma distinct_keys_dailyStep:
  "distinct (map fst m) \<Longrightarrow> distinct (map fst (dailyStep h m row))"
  by (simp add: dailyStep_update distinct_update)

lemma distinct_keys_fold: "distinct (map fst (foldl (dailyStep h) [] rows))"
  by (induction rows rule: rev_induct) (simp_all add: distinct_keys_dailyStep)

lemma entryOk_mono: "entryOk h rows k e \<Longrightarrow> entryOk h (rows @ [r]) k e"
  by (auto simp: entryOk_def)

lemma entryOk_fresh: "entryOk h (rows @ [r]) (rowDate h r) (touch h r (freshEntry h r))"
  by (simp add: entryOk_def distinct_Clients_touch freshEntry_def)

lemma entryOk_touch:
  "entryOk h rows (rowDate h r) e \<Longrightarrow> entryOk h (rows @ [r]) (rowDate h r) (touch h r e)"
  by (auto simp: entryOk_def distinct_Clients_touch)

lemma entryOk_fold:
  "map_of (foldl (dailyStep h) [] rows) k = Some e \<Longrightarrow> entryOk h rows k e"
proof (induction rows arbitrary: k e rule: rev_induct)
  case Nil
  then show ?case by simp
next
  case (snoc r rows)
  let ?m = "foldl (dailyStep h) [] rows"
  show ?case
  proof (cases "k = rowDate h r")
    case True
    with snoc.prems have e: "e = touch h r (entryOr h r ?m)"
      by (simp add: map_of_dailyStep)
    show ?thesis
    proof (cases "map_of ?m (rowDate h r)")
      case None
      then show ?thesis using e True by (simp add: entryOr_def entryOk_fresh)
    next
      case (Some e')
      then have "entryOk h rows (rowDate h r) e'" by (rule snoc.IH)
      then show ?thesis using e True Some by (simp add: entryOr_def entryOk_touch)
    qed
  next
    case False
    with snoc.prems have "map_of ?m k = Some e" by (simp add: map_of_dailyStep)
    then show ?thesis by (intro entryOk_mono snoc.IH)
  qed
qed

lemma client_recorded_fold:
  "r \<in> set rows \<Longrightarrow> truthy (rClient r) \<Longrightarrow>
   \<exists>e. map_of (foldl (dailyStep h) [] rows) (rowDate h r) = Some e \<and> the (rClient r) \<in> set (Clients e)"
proof (induction rows rule: rev_induct)
  case Nil
  then show ?case by simp
next
  case (snoc x rows)
  let ?m = "foldl (dailyStep h) [] rows"
  show ?case
  proof (cases "rowDate h r = rowDate h x")
    case same: True
    show ?thesis
    proof (cases "r = x")
      case True
      then show ?thesis using snoc.prems by (simp add: map_of_dailyStep Clients_touch_own)
    next
      case False
      with snoc.prems have "r \<in> set rows" by simp
      from snoc.IH [OF this snoc.prems(2)] obtain e where
        e: "map_of ?m (rowDate h r) = Some e" "the (rClient r) \<in> set (Clients e)" by blast
      then show ?thesis using same
        by (simp add: map_of_dailyStep entryOr_def Clients_touch_mono)
    qed
  next
    case False
    with snoc.prems have "r \<in> set rows" by auto
    from snoc.IH [OF this snoc.prems(2)] show ?thesis using False
      by (simp add: map_of_dailyStep)
  qed
qed

lemma in_values_iff:
  "distinct (map fst m) \<Longrightarrow> e \<in> set (map snd m) \<longleftrightarrow> (\<exists>k. map_of m k = Some e)"
proof
  assume "e \<in> set (map snd m)"
  then obtain k where "(k, e) \<in> set m" by auto
  then show "distinct (map fst m) \<Longrightarrow> \<exists>k. map_of m k = Some e" by (auto intro: exI [of _ k])
next
  assume "\<exists>k. map_of m k = Some e"
  then obtain k where "map_of m k = Some e" by blast
  then have "(k, e) \<in> set m" by (rule map_of_SomeD)
  then show "e \<in> set (map snd m)" by force
qed

lemma set_aggregate:
  "a \<in> set (aggregate h sheetData) \<longleftrightarrow>
   (\<exists>k. map_of (foldl (dailyStep h) [] (validRows sheetData)) k = Some a)"
  by (simp only: aggregate_def set_sortBy fst_forEachRow in_values_iff [OF distinct_keys_fold])

lemma aggregate_entryOk:
  "a \<in> set (aggregate h sheetData) \<Longrightarrow> entryOk h (validRows sheetData) (Date a) a"
  by (auto simp: set_aggregate dest: entryOk_fold simp: entryOk_def)

lemma distinct_map_insertBy:
  "distinct (map f (insertBy cmp x xs)) \<longleftrightarrow> f x \<notin> f ` set xs \<and> distinct (map f xs)"
  by (induction xs) (auto simp: set_insertBy)

lemma distinct_map_sortBy: "distinct (map f (sortBy cmp xs)) \<longleftrightarrow> distinct (map f xs)"
  unfolding sortBy_def
proof (induction xs)
  case Nil
  show ?case by simp
next
  case (Cons x xs)
  have "set (foldr (insertBy cmp) xs []) = set xs"
    using set_sortBy [of cmp xs] by (simp add: sortBy_def)
  with Cons show ?case by (simp add: distinct_map_insertBy)
qed

lemma Date_keys_fold:
  "map (\<lambda>p. Date (snd p)) (foldl (dailyStep h) [] rows) = map fst (foldl (dailyStep h) [] rows)"
proof (rule map_cong [OF refl])
  fix p assume p: "p \<in> set (foldl (dailyStep h) [] rows)"
  have "map_of (foldl (dailyStep h) [] rows) (fst p) = Some (snd p)"
    using p distinct_keys_fold [of h rows] by simp
  then show "Date (snd p) = fst p" by (auto dest: entryOk_fold simp: entryOk_def)
qed

lemma distinct_Date_aggregate: "distinct (map Date (aggregate h sheetData))"
proof -
  let ?m = "foldl (dailyStep h) [] (validRows sheetData)"
  have "map Date (map snd ?m) = map fst ?m"
    using Date_keys_fold [of h "validRows sheetData"] by (simp add: comp_def)
  then have "distinct (map Date (map snd ?m))"
    using distinct_keys_fold [of h "validRows sheetData"] by (simp only:)
  then show ?thesis
    by (simp only: aggregate_def distinct_map_sortBy fst_forEachRow)
qed

lemma validRows_drop: "\<not> validRow r \<Longrightarrow> validRows (xs @ r # ys) = validRows (xs @ ys)"
  by (simp add: validRows_def)

lemma validRows_snoc: "validRow r \<Longrightarrow> validRows (xs @ [r]) = validRows xs @ [r]"
  by (simp add: validRows_def)

lemma aggregate_drop: "\<not> validRow r \<Longrightarrow> aggregate h (xs @ r # ys) = aggregate h (xs @ ys)"
  by (simp add: aggregate_def validRows_drop)

lemma personArray_drop: "\<not> validRow r \<Longrightarrow> personArray h (xs @ r # ys) = personArray h (xs @ ys)"
  by (simp add: personArray_def validRows_drop)

lemma sum_SalesCount_aggregate:
  "sum_list (map SalesCount (aggregate h sheetData)) = length (validRows sheetData)"
  using sum_SalesCount_fold [of h "validRows sheetData"]
  by (simp add: aggregate_def sum_sortBy fst_forEachRow comp_def)

lemma sum_Revenue_aggregate:
  "sum_list (map Revenue (aggregate h sheetData)) = sum_list (map (rowRevenue h) (validRows sheetData))"
  using sum_Revenue_fold [of h "validRows sheetData"]
  by (simp add: aggregate_def sum_sortBy fst_forEachRow comp_def)

lemma Number_js_zero: "Number_js h ''0'' = Some 0"
  by (simp add: Number_js_def isDigit_def natOfDigits_def digitVal_def)

lemma validRow_iff:
  "validRow r \<longleftrightarrow> (\<exists>d v. rDate r = Some d \<and> d \<noteq> [] \<and> rRevenue r = Some v \<and> v \<noteq> [])"
  by (auto simp: validRow_def truthy_def split: option.splits)

lemma length_showNat: "n < 10 ^ k \<Longrightarrow> 0 < k \<Longrightarrow> length (showNat n) \<le> k"
proof (induction n arbitrary: k rule: showNat.induct)
  case (1 n)
  show ?case
  proof (cases "n < 10")
    case True
    then show ?thesis using "1.prems" by (simp add: showNat.simps)
  next
    case False
    obtain j where k: "k = Suc j" using "1.prems"(2) by (cases k) auto
    have "j \<noteq> 0" using False "1.prems"(1) k by (cases j) auto
    moreover have "n div 10 < 10 ^ j" using "1.prems"(1) k by (simp add: less_mult_imp_div_less)
    ultimately have "length (showNat (n div 10)) \<le> j" using "1.IH" [OF False, of j] by simp
    then show ?thesis using False k by (subst showNat.simps) simp
  qed
qed

lemma length_fmt_YYYY: "0 \<le> year_of c \<Longrightarrow> year_of c \<le> 9999 \<Longrightarrow> length (fmt_YYYY c) = 4"
proof -
  assume a: "0 \<le> year_of c" "year_of c \<le> 9999"
  then have "nat (year_of c) < 10 ^ 4" by simp
  then have "length (showNat (nat (year_of c))) \<le> 4" by (rule length_showNat) simp
  then show ?thesis using a by (auto simp: fmt_YYYY_def showInt_def padStart_def)
qed

lemma fmt_MMMM_in: "fmt_MMMM c \<in> set monthNames"
  unfolding fmt_MMMM_def by (rule nth_mem) (simp add: monthNames_def)

section \<open>The calendar\<close>

lemma normDay_in: "1 \<le> d \<Longrightarrow> d \<le> int (daysInMonth y m) \<Longrightarrow> normDay y m d = (y, m, nat d)"
  by (simp add: normDay.simps)

lemma daysInMonth_bounds: "28 \<le> daysInMonth y m" "daysInMonth y m \<le> 31"
  by (simp_all add: daysInMonth_def)

lemma step_div:
  fixes y k :: int
  assumes "0 < k"
  shows "(y + k) div k - (y + (k - 1)) div k = (if y mod k = 0 then 1 else 0)"
proof -
  have a: "(y + k) div k = y div k + 1" using assms by simp
  have r: "0 \<le> y mod k" "y mod k < k" using assms by simp_all
  have "y + (k - 1) = (y mod k + (k - 1)) + (y div k) * k" by (simp add: algebra_simps)
  then have b: "(y + (k - 1)) div k = y div k + (y mod k + (k - 1)) div k"
    using assms by (metis div_mult_self1 less_irrefl)
  show ?thesis
  proof (cases "y mod k = 0")
    case True
    then show ?thesis using a b assms by (simp add: div_pos_pos_trivial)
  next
    case False
    then have "(y mod k + (k - 1)) div k = 1"
      using r by (intro int_div_pos_eq [where r = "y mod k - 1"]) auto
    then show ?thesis using False a b by simp
  qed
qed

lemma daysBeforeYear_Suc: "daysBeforeYear (y + 1) = daysBeforeYear y + (if isLeap y then 366 else 365)"
proof -
  have m: "y mod 100 = y mod 400 mod 100" "y mod 4 = y mod 100 mod 4"
    by (simp_all add: mod_mod_cancel)
  have s4: "(y + 4) div 4 - (y + 3) div 4 = (if y mod 4 = 0 then 1 else 0)"
    using step_div [of 4 y] by simp
  have s100: "(y + 100) div 100 - (y + 99) div 100 = (if y mod 100 = 0 then 1 else 0)"
    using step_div [of 100 y] by simp
  have s400: "(y + 400) div 400 - (y + 399) div 400 = (if y mod 400 = 0 then 1 else 0)"
    using step_div [of 400 y] by simp
  have e: "daysBeforeYear (y + 1) = daysBeforeYear y + 365
      + ((y + 4) div 4 - (y + 3) div 4) - ((y + 100) div 100 - (y + 99) div 100)
      + ((y + 400) div 400 - (y + 399) div 400)"
    by (simp add: daysBeforeYear_def add.assoc)
  show ?thesis
  proof (cases "y mod 4 = 0")
    case c4: True
    show ?thesis
    proof (cases "y mod 100 = 0")
      case c100: True
      show ?thesis
      proof (cases "y mod 400 = 0")
        case True
        then show ?thesis unfolding e s4 s100 s400 isLeap_def using c4 c100 by simp
      next
        case False
        then show ?thesis unfolding e s4 s100 s400 isLeap_def using c4 c100 by simp
      qed
    next
      case False
      then have "y mod 400 \<noteq> 0" using m(1) by auto
      then show ?thesis unfolding e s4 s100 s400 isLeap_def using c4 False by simp
    qed
  next
    case False
    then have "y mod 100 \<noteq> 0" using m(2) by auto
    moreover from this have "y mod 400 \<noteq> 0" using m(1) by auto
    ultimately show ?thesis unfolding e s4 s100 s400 isLeap_def using False by simp
  qed
qed

lemma daysBeforeMonth_Suc: "daysBeforeMonth y (Suc m) = daysBeforeMonth y m + int (daysInMonth y m)"
  by (simp add: daysBeforeMonth_def)

lemma daysBeforeMonth_0: "daysBeforeMonth y 0 = 0"
  by (simp add: daysBeforeMonth_def)

lemma daysBeforeMonth_12: "daysBeforeMonth y 12 = (if isLeap y then 366 else 365)"
  by (simp add: daysBeforeMonth_def daysInMonth_def upt_rec)

lemma dayNumber_shift: "dayNumber y m d = dayNumber y m 0 + d"
  by (simp add: dayNumber_def)

lemma dayNumber_nextMonth:
  assumes "m < 12" "nextMonth y m = (y', m')"
  shows "dayNumber y' m' d = dayNumber y m (d + int (daysInMonth y m))"
proof (cases "m = 11")
  case True
  then have "y' = y + 1" "m' = 0" using assms(2) by (simp_all add: nextMonth_def)
  moreover have "daysBeforeMonth y 11 + int (daysInMonth y 11) = daysBeforeMonth y 12"
    using daysBeforeMonth_Suc [of y 11] by simp
  ultimately show ?thesis using True
    by (simp add: dayNumber_def daysBeforeYear_Suc daysBeforeMonth_0 daysBeforeMonth_12)
next
  case False
  then have "y' = y" "m' = Suc m" using assms by (simp_all add: nextMonth_def)
  then show ?thesis by (simp add: dayNumber_def daysBeforeMonth_Suc)
qed

lemma nextMonth_lt: "nextMonth y m = (y', m') \<Longrightarrow> m' < 12"
  by (auto simp: nextMonth_def split: if_splits)

lemma prevMonth_nextMonth: "m < 12 \<Longrightarrow> prevMonth (fst (nextMonth y m)) (snd (nextMonth y m)) = (y, m)"
  by (auto simp: prevMonth_def nextMonth_def)

lemma normDay_over:
  assumes "int (daysInMonth y m) < d" "d \<le> int (daysInMonth y m) + 28" "nextMonth y m = (y', m')"
  shows "normDay y m d = (y', m', nat (d - int (daysInMonth y m)))"
proof -
  have "normDay y m d = normDay y' m' (d - int (daysInMonth y m))"
    using assms by (subst normDay.simps) simp
  also have "\<dots> = (y', m', nat (d - int (daysInMonth y m)))"
    using assms daysInMonth_bounds(1) [of y' m'] by (intro normDay_in) auto
  finally show ?thesis .
qed

section \<open>Properties of the filter effect\<close>

lemma isAfter_laterThan: "isAfter (dayjs h (Date item)) t = laterThan h t item"
  by (simp add: isAfter_def laterThan_def js_lt_def valueOf_def split: Dayjs.splits)

lemma week_test:
  "hasDate h item \<Longrightarrow>
   (\<not> isBefore (dayjs h (Date item)) (Valid s) \<and> \<not> isAfter (dayjs h (Date item)) (Valid e)) = inWeek h s e item"
  by (auto simp: hasDate_def isValid_def isBefore_def isAfter_def inWeek_def js_lt_def valueOf_def
      split: Dayjs.splits)

lemma inWeek_hasDate: "inWeek h s e item \<Longrightarrow> hasDate h item"
  by (simp add: inWeek_def hasDate_def isValid_def split: Dayjs.splits)

lemma applyFilters_all: "applyFilters h now AllData ''all'' w rows = rows"
  by (simp add: applyFilters_def modeFilter_def)

lemma applyFilters_weekly_default:
  "w = None \<or> m = ''all'' \<Longrightarrow>
   applyFilters h now Weekly m w rows = filter (laterThan h (subtract_day now 7)) rows"
  by (auto simp: applyFilters_def modeFilter_def isAfter_laterThan split: option.splits)

lemma week_test_invalid:
  "\<not> hasDate h item \<Longrightarrow>
   \<not> isBefore (dayjs h (Date item)) (Valid s) \<and> \<not> isAfter (dayjs h (Date item)) (Valid e)"
  by (auto simp: hasDate_def isValid_def isBefore_def isAfter_def js_lt_def valueOf_def
      split: Dayjs.splits)

lemma applyFilters_weekly_week:
  assumes "m \<noteq> ''all''" "dayjs h (wr_start w) = Valid s" "dayjs h (wr_end w) = Valid e"
  shows "applyFilters h now Weekly m (Some w) rows =
           filter (\<lambda>item. \<not> hasDate h item \<or> inWeek h s e item) rows"
proof -
  have "applyFilters h now Weekly m (Some w) rows
      = filter (\<lambda>item. \<not> isBefore (dayjs h (Date item)) (Valid s) \<and>
           \<not> isAfter (dayjs h (Date item)) (Valid e)) rows"
    using assms by (simp add: applyFilters_def modeFilter_def Let_def)
  also have "\<dots> = filter (\<lambda>item. \<not> hasDate h item \<or> inWeek h s e item) rows"
  proof (rule filter_cong [OF refl])
    fix item
    show "(\<not> isBefore (dayjs h (Date item)) (Valid s) \<and> \<not> isAfter (dayjs h (Date item)) (Valid e)) =
        (\<not> hasDate h item \<or> inWeek h s e item)"
      using week_test [of h item s e] week_test_invalid [of h item s e] by (cases "hasDate h item") simp_all
  qed
  finally show ?thesis .
qed

lemma weekly_without_week:
  assumes "m \<noteq> ''all''" "data st \<noteq> []"
  shows "filteredData (filterEffect h now (clickWeekly (selectMonth m st))) =
           filter (laterThan h (subtract_day now 7)) (data st)"
proof -
  have "applyFilters h now Weekly m None (data st) = filter (laterThan h (subtract_day now 7)) (data st)"
    by (rule applyFilters_weekly_default) simp
  then show ?thesis
    using assms by (simp add: filterEffect_def clickWeekly_def selectMonth_def)
qed

lemma salesByPerson_filterEffect: "salesByPerson (filterEffect h now st) = salesByPerson st"
  by (simp add: filterEffect_def)

lemma salesByPerson_setFilterState: "salesByPerson (setFilterState f m w y c st) = salesByPerson st"
  by (simp add: setFilterState_def)

lemma salesByPerson_fetchData: "salesByPerson (fetchData h sheetData st) = personArray h sheetData"
  by (simp add: fetchData_def Let_def)

text \<open>
  The total of a person is the sum of the parsed revenues of the valid rows of that
  person (for names that are ordinary keys of an object, as the model of \<^verbatim>\<open>personMap\<close>
  takes them to be).
\<close>

lemma map_of_personStep:
  "map_of (personStep h pm row) =
     (map_of pm)(rowPerson row \<mapsto> (case map_of pm (rowPerson row) of None \<Rightarrow> 0 | Some v \<Rightarrow> v) + rowRevenue h row)"
  by (auto simp: personStep_def Let_def update_conv' split: option.splits)

lemma map_of_person_fold:
  "map_of (foldl (personStep h) [] rows) n =
     (if n \<in> rowPerson ` set rows
      then Some (sum_list (map (rowRevenue h) (filter (\<lambda>r. rowPerson r = n) rows)))
      else None)"
proof (induction rows rule: rev_induct)
  case Nil
  show ?case by simp
next
  case (snoc x xs)
  have none: "rowPerson x \<notin> rowPerson ` set xs \<Longrightarrow> filter (\<lambda>r. rowPerson r = rowPerson x) xs = []"
    by (simp add: filter_empty_conv) (metis imageI)
  show ?case using snoc none by (auto simp: map_of_personStep)
qed

lemma distinct_person_fold: "distinct (map fst (foldl (personStep h) [] rows))"
  by (induction rows rule: rev_induct) (simp_all add: personStep_def Let_def distinct_update)

lemma personArray_total:
  assumes "p \<in> set (personArray h sheetData)"
  shows "revenue p = sum_list (map (rowRevenue h) (filter (\<lambda>r. rowPerson r = name p) (validRows sheetData)))"
proof -
  let ?pm = "foldl (personStep h) [] (validRows sheetData)"
  from assms obtain n v where nv: "(n, v) \<in> set ?pm" "p = \<lparr>name = n, revenue = v\<rparr>"
    by (auto simp: personArray_def snd_forEachRow)
  then have "map_of ?pm n = Some v" using distinct_person_fold [of h "validRows sheetData"] by simp
  then show ?thesis using nv(2) by (simp add: map_of_person_fold split: if_splits)
qed

section \<open>The loop of the weeks\<close>

lemma timeOf_mk:
  "timeOf \<lparr>year_of = y, month_of = m, date_of = d, ms_of = t\<rparr> =
     (dayNumber y m 0 + int d) * 86400000 + int t"
  by (simp add: timeOf_def msPerDay_def dayNumber_shift [of y m "int d"])

lemma weekdayOf_le: "weekdayOf y m d \<le> 6"
  by (simp add: weekdayOf_def weekday_def nat_le_iff)

lemma weekdayOf_eq: "int (weekdayOf y m d) = (dayNumber y m 0 + int d + 4) mod 7"
  by (simp add: weekdayOf_def weekday_def dayNumber_shift [of y m "int d"])

lemma civilOf_in:
  "m < 12 \<Longrightarrow> 1 \<le> d \<Longrightarrow> d \<le> int (daysInMonth y m) \<Longrightarrow>
   civilOf y m d t = \<lparr>year_of = y, month_of = m, date_of = nat d, ms_of = t\<rparr>"
  by (simp add: civilOf_def normDay_in)

lemma newDate_civilOf: "y < 0 \<or> 99 < y \<Longrightarrow> newDate y m d t = civilOf y m d t"
  by (auto simp: newDate_def)

lemma civilOf_over:
  "m < 12 \<Longrightarrow> int (daysInMonth y m) < d \<Longrightarrow> d \<le> int (daysInMonth y m) + 28 \<Longrightarrow>
   nextMonth y m = (y', m') \<Longrightarrow>
   civilOf y m d t = \<lparr>year_of = y', month_of = m', date_of = nat (d - int (daysInMonth y m)), ms_of = t\<rparr>"
  by (simp add: civilOf_def normDay_over)

lemma normDay_zero:
  "m < 12 \<Longrightarrow> normDay (y + int (Suc m div 12)) (Suc m mod 12) 0 = (y, m, daysInMonth y m)"
proof -
  assume m: "m < 12"
  have p: "prevMonth (y + int (Suc m div 12)) (Suc m mod 12) = (y, m)"
    using m by (cases "m = 11") (simp_all add: prevMonth_def)
  have "normDay (y + int (Suc m div 12)) (Suc m mod 12) 0 = normDay y m (int (daysInMonth y m))"
    by (subst normDay.simps) (simp add: p)
  also have "\<dots> = (y, m, daysInMonth y m)"
    using daysInMonth_bounds(1) [of y m] by (simp add: normDay_in)
  finally show ?thesis .
qed

lemma endOf_month_eq:
  "m < 12 \<Longrightarrow> y < 0 \<or> 99 < y \<Longrightarrow>
   endOf_month (Valid \<lparr>year_of = y, month_of = m, date_of = d, ms_of = t\<rparr>) =
     Valid \<lparr>year_of = y, month_of = m, date_of = daysInMonth y m, ms_of = 86399999\<rparr>"
  by (simp add: endOf_month_def endOf_day_def newDate_civilOf civilOf_def normDay_zero)

lemma civilOf_first:
  "civilOf y m 1 t = \<lparr>year_of = y + int (m div 12), month_of = m mod 12, date_of = 1, ms_of = t\<rparr>"
  using daysInMonth_bounds(1) [of "y + int (m div 12)" "m mod 12"]
  by (simp add: civilOf_def normDay_in)

lemma startOf_month_eq:
  "\<exists>y. startOf_month (Valid c) =
     Valid \<lparr>year_of = y, month_of = month_of c mod 12, date_of = 1, ms_of = 0\<rparr>"
  by (simp add: startOf_month_def newDate_def civilOf_first)

lemma monthStart_shape:
  assumes "monthStart h monthYear = Valid c"
  shows "c = \<lparr>year_of = year_of c, month_of = month_of c, date_of = 1, ms_of = 0\<rparr> \<and> month_of c < 12"
proof -
  obtain x where "startOf_month x = Valid c"
    using assms by (auto simp: monthStart_def Let_def)
  then show ?thesis
  proof (cases x)
    case InvalidDate
    with \<open>startOf_month x = Valid c\<close> show ?thesis by (simp add: startOf_month_def)
  next
    case (Valid c0)
    with \<open>startOf_month x = Valid c\<close> startOf_month_eq [of c0] obtain y where
      "c = \<lparr>year_of = y, month_of = month_of c0 mod 12, date_of = 1, ms_of = 0\<rparr>"
      by auto
    then show ?thesis by simp
  qed
qed

lemma format_dayOf:
  "format (Valid \<lparr>year_of = y, month_of = m, date_of = d, ms_of = t\<rparr>) YYYY_MM_DD =
     format (dayOf y m d) YYYY_MM_DD"
  by (simp add: format_def dayOf_def fmt_YYYY_def fmt_MM_def fmt_DD_def)

text \<open>One turn of the loop, inside the month.\<close>

lemma loop_cond:
  assumes "1 \<le> d" "d \<le> daysInMonth y m" "t \<le> 86399999"
  shows "isBefore (Valid \<lparr>year_of = y, month_of = m, date_of = d, ms_of = t\<rparr>)
           (Valid \<lparr>year_of = y, month_of = m, date_of = daysInMonth y m, ms_of = 86399999\<rparr>) \<or>
         isSame_day (Valid \<lparr>year_of = y, month_of = m, date_of = d, ms_of = t\<rparr>)
           (Valid \<lparr>year_of = y, month_of = m, date_of = daysInMonth y m, ms_of = 86399999\<rparr>)"
proof (cases "d = daysInMonth y m")
  case True
  then show ?thesis
    by (simp add: isSame_day_def js_le_def valueOf_def startOf_day_def endOf_day_def timeOf_mk)
next
  case False
  then have "int d + 1 \<le> int (daysInMonth y m)" using assms by simp
  then have "(dayNumber y m 0 + int d) * 86400000 + 86400000 \<le> (dayNumber y m 0 + int (daysInMonth y m)) * 86400000"
    by simp
  then show ?thesis using assms
    by (simp add: isBefore_def js_lt_def valueOf_def timeOf_mk)
qed

lemma loop_weekEnd:
  assumes "m < 12" "1 \<le> d" "d \<le> daysInMonth y m" and yr: "y < 0 \<or> 99 < y"
    and e: "e = min (d + (6 - weekdayOf y m d)) (daysInMonth y m)"
  shows "(let weekEnd0 = endOf_week (Valid \<lparr>year_of = y, month_of = m, date_of = d, ms_of = t\<rparr>)
          in if isAfter weekEnd0 (Valid \<lparr>year_of = y, month_of = m, date_of = daysInMonth y m, ms_of = 86399999\<rparr>)
             then Valid \<lparr>year_of = y, month_of = m, date_of = daysInMonth y m, ms_of = 86399999\<rparr>
             else weekEnd0) =
         Valid \<lparr>year_of = y, month_of = m, date_of = e, ms_of = 86399999\<rparr>"
proof -
  let ?n = "daysInMonth y m"
  let ?x = "d + (6 - weekdayOf y m d)"
  have w: "weekday \<lparr>year_of = y, month_of = m, date_of = d, ms_of = t\<rparr> = weekdayOf y m d"
    by (simp add: weekday_def weekdayOf_def)
  have x: "int d + (6 - int (weekdayOf y m d)) = int ?x"
    using weekdayOf_le [of y m d] by simp
  have w0: "endOf_week (Valid \<lparr>year_of = y, month_of = m, date_of = d, ms_of = t\<rparr>) =
      Valid ((civilOf y m (int ?x) 0)\<lparr>ms_of := 86399999\<rparr>)"
    by (simp add: endOf_week_def endOf_day_def w x newDate_civilOf [OF yr])
  show ?thesis
  proof (cases "?x \<le> ?n")
    case True
    then have "civilOf y m (int ?x) 0 = \<lparr>year_of = y, month_of = m, date_of = ?x, ms_of = 0\<rparr>"
      using assms by (simp add: civilOf_in)
    moreover have "e = ?x" using True e by simp
    ultimately show ?thesis using True
      by (simp add: w0 Let_def isAfter_def js_lt_def valueOf_def timeOf_mk)
  next
    case False
    obtain y' m' where nm: "nextMonth y m = (y', m')" by (cases "nextMonth y m")
    have over: "int ?n < int ?x" "int ?x \<le> int ?n + 28"
      using False assms weekdayOf_le [of y m d] by simp_all
    have nd: "civilOf y m (int ?x) 0 =
        \<lparr>year_of = y', month_of = m', date_of = nat (int ?x - int ?n), ms_of = 0\<rparr>"
      by (rule civilOf_over [OF assms(1) over nm])
    have dn: "dayNumber y' m' 0 = dayNumber y m 0 + int ?n"
      using dayNumber_nextMonth [OF assms(1) nm, of 0] dayNumber_shift [of y m "0 + int ?n"] by simp
    have "e = ?n" using False e by simp
    moreover have "isAfter (Valid ((civilOf y m (int ?x) 0)\<lparr>ms_of := 86399999\<rparr>))
        (Valid \<lparr>year_of = y, month_of = m, date_of = ?n, ms_of = 86399999\<rparr>)"
      unfolding nd using over by (simp add: isAfter_def js_lt_def valueOf_def timeOf_mk dn)
    ultimately show ?thesis by (simp add: w0 Let_def)
  qed
qed

lemma loop_step:
  assumes "m < 12" "1 \<le> d" "d \<le> daysInMonth y m" "t \<le> 86399999" and yr: "y < 0 \<or> 99 < y"
    and e: "e = min (d + (6 - weekdayOf y m d)) (daysInMonth y m)"
  shows "weeksLoop (Valid \<lparr>year_of = y, month_of = m, date_of = daysInMonth y m, ms_of = 86399999\<rparr>)
           (Valid \<lparr>year_of = y, month_of = m, date_of = d, ms_of = t\<rparr>) acc =
         weeksLoop (Valid \<lparr>year_of = y, month_of = m, date_of = daysInMonth y m, ms_of = 86399999\<rparr>)
           (Valid (civilOf y m (int e + 1) 86399999)) (acc @ [rangeOf y m (d, e)])"
proof -
  note c = loop_cond [OF assms(2,3,4)]
  note we = loop_weekEnd [OF assms(1,2,3) yr e, of t, unfolded Let_def]
  show ?thesis
    by (subst weeksLoop.simps)
       (simp only: c if_True Let_def we add_day_def Dayjs.case civil.simps rangeOf_def fst_conv snd_conv
          format_dayOf [of y m d t] format_dayOf [of y m e 86399999])
qed

lemma loop_exit:
  assumes "m < 12" "nextMonth y m = (y', m')"
  shows "weeksLoop (Valid \<lparr>year_of = y, month_of = m, date_of = daysInMonth y m, ms_of = 86399999\<rparr>)
           (Valid \<lparr>year_of = y', month_of = m', date_of = Suc 0, ms_of = 86399999\<rparr>) acc = Some acc"
proof -
  have dn: "dayNumber y' m' 0 = dayNumber y m 0 + int (daysInMonth y m)"
    using dayNumber_nextMonth [OF assms, of 0] dayNumber_shift [of y m "0 + int (daysInMonth y m)"] by simp
  show ?thesis
    by (subst weeksLoop.simps)
       (simp add: isBefore_def isSame_day_def js_lt_def js_le_def valueOf_def startOf_day_def
          endOf_day_def timeOf_mk dn)
qed

lemma loop_ranges:
  "m < 12 \<Longrightarrow> 1 \<le> d \<Longrightarrow> d \<le> daysInMonth y m \<Longrightarrow> t \<le> 86399999 \<Longrightarrow> y < 0 \<or> 99 < y \<Longrightarrow>
   weeksLoop (Valid \<lparr>year_of = y, month_of = m, date_of = daysInMonth y m, ms_of = 86399999\<rparr>)
     (Valid \<lparr>year_of = y, month_of = m, date_of = d, ms_of = t\<rparr>) acc =
   Some (acc @ map (rangeOf y m) (monthRanges y m d))"
proof (induction y m d arbitrary: t acc rule: monthRanges.induct)
  case (1 y m d)
  let ?n = "daysInMonth y m"
  define e where "e = min (d + (6 - weekdayOf y m d)) ?n"
  have in_month: "\<not> (d < 1 \<or> ?n < d)" using "1.prems" by simp
  have ranges: "monthRanges y m d = (d, e) # monthRanges y m (Suc e)"
    using in_month by (subst monthRanges.simps) (simp add: e_def Let_def)
  have step: "weeksLoop (Valid \<lparr>year_of = y, month_of = m, date_of = ?n, ms_of = 86399999\<rparr>)
           (Valid \<lparr>year_of = y, month_of = m, date_of = d, ms_of = t\<rparr>) acc =
         weeksLoop (Valid \<lparr>year_of = y, month_of = m, date_of = ?n, ms_of = 86399999\<rparr>)
           (Valid (civilOf y m (int e + 1) 86399999)) (acc @ [rangeOf y m (d, e)])"
    using "1.prems" by (intro loop_step) (simp_all add: e_def)
  have e_le: "e \<le> ?n" "d \<le> e" by (simp_all add: e_def "1.prems")
  show ?case
  proof (cases "Suc e \<le> ?n")
    case True
    have "civilOf y m (int e + 1) 86399999 =
        \<lparr>year_of = y, month_of = m, date_of = Suc e, ms_of = 86399999\<rparr>"
      using True "1.prems"(1) civilOf_in [of m "int e + 1" y 86399999] by (simp add: nat_add_distrib)
    moreover have "weeksLoop (Valid \<lparr>year_of = y, month_of = m, date_of = ?n, ms_of = 86399999\<rparr>)
        (Valid \<lparr>year_of = y, month_of = m, date_of = Suc e, ms_of = 86399999\<rparr>) (acc @ [rangeOf y m (d, e)])
        = Some ((acc @ [rangeOf y m (d, e)]) @ map (rangeOf y m) (monthRanges y m (Suc e)))"
      using True "1.prems"(1,5) by (intro "1.IH" [OF in_month e_def]) simp_all
    ultimately show ?thesis by (simp add: step ranges)
  next
    case False
    then have en: "e = ?n" using e_le by simp
    obtain y' m' where nm: "nextMonth y m = (y', m')" by (cases "nextMonth y m")
    have "civilOf y m (int e + 1) 86399999 =
        \<lparr>year_of = y', month_of = m', date_of = 1, ms_of = 86399999\<rparr>"
      using civilOf_over [OF "1.prems"(1) _ _ nm, of "int e + 1" 86399999] by (simp add: en)
    moreover have "monthRanges y m (Suc e) = []"
      by (subst monthRanges.simps) (simp add: en)
    ultimately show ?thesis
      by (simp add: step ranges loop_exit [OF "1.prems"(1) nm])
  qed
qed

lemma getWeeksOfMonth_ranges:
  assumes ms: "monthStart h monthYear = Valid c" and yr: "year_of c < 0 \<or> 99 < year_of c"
  shows "getWeeksOfMonth h monthYear =
           Some (map (rangeOf (year_of c) (month_of c)) (monthRanges (year_of c) (month_of c) 1))"
proof -
  from monthStart_shape [OF ms] have c: "c = \<lparr>year_of = year_of c, month_of = month_of c, date_of = 1, ms_of = 0\<rparr>"
    and m: "month_of c < 12" by simp_all
  have "endOf_month (Valid c) = Valid \<lparr>year_of = year_of c, month_of = month_of c,
      date_of = daysInMonth (year_of c) (month_of c), ms_of = 86399999\<rparr>"
    by (subst c) (rule endOf_month_eq [OF m yr])
  moreover have "weeksLoop (Valid \<lparr>year_of = year_of c, month_of = month_of c,
      date_of = daysInMonth (year_of c) (month_of c), ms_of = 86399999\<rparr>) (Valid c) [] =
      Some ([] @ map (rangeOf (year_of c) (month_of c)) (monthRanges (year_of c) (month_of c) 1))"
    using daysInMonth_bounds(1) [of "year_of c" "month_of c"]
    by (subst c) (rule loop_ranges [OF m], simp_all add: yr)
  ultimately show ?thesis using ms by (simp add: getWeeksOfMonth_def Let_def)
qed

text \<open>
  The year of the first day of a month is never from 0 to 99 when the month index of the
  parsed date is below 12, as it is for every date of the host: the constructor reads
  such a year as 1900 + y.
\<close>

lemma monthStart_year:
  assumes "monthStart h monthYear = Valid c"
    and "dayjs h (element (split_js CHR '' '' monthYear) 0 @ '' 1, '' @
           element (split_js CHR '' '' monthYear) 1) = Valid c0"
    and "month_of c0 < 12"
  shows "year_of c < 0 \<or> 99 < year_of c"
proof -
  have "c = newDate (year_of c0) (month_of c0) 1 0"
    using assms(1,2) by (simp add: monthStart_def Let_def startOf_month_def)
  then show ?thesis using assms(3) by (auto simp: newDate_def civilOf_first)
qed

lemma monthRanges_out: "daysInMonth y m < d \<Longrightarrow> monthRanges y m d = []"
  by (subst monthRanges.simps) simp

lemma monthRanges_in:
  "1 \<le> d \<Longrightarrow> d \<le> daysInMonth y m \<Longrightarrow>
   monthRanges y m d =
     (d, min (d + (6 - weekdayOf y m d)) (daysInMonth y m)) #
     monthRanges y m (Suc (min (d + (6 - weekdayOf y m d)) (daysInMonth y m)))"
  by (subst monthRanges.simps) (simp add: Let_def)

lemma ranges_days:
  "1 \<le> d \<Longrightarrow> d \<le> Suc (daysInMonth y m) \<Longrightarrow>
   concat (map daysOf (monthRanges y m d)) = [d..<Suc (daysInMonth y m)]"
proof (induction y m d rule: monthRanges.induct)
  case (1 y m d)
  let ?n = "daysInMonth y m"
  show ?case
  proof (cases "d \<le> ?n")
    case False
    then show ?thesis using "1.prems" by (simp add: monthRanges_out)
  next
    case True
    define e where "e = min (d + (6 - weekdayOf y m d)) ?n"
    have e: "d \<le> e" "e \<le> ?n" using True by (simp_all add: e_def)
    have r: "monthRanges y m d = (d, e) # monthRanges y m (Suc e)"
      unfolding e_def using "1.prems"(1) True by (intro monthRanges_in) simp_all
    have ih: "concat (map daysOf (monthRanges y m (Suc e))) = [Suc e..<Suc ?n]"
      using "1.prems" True e by (intro "1.IH" [OF _ e_def]) simp_all
    have "Suc e + (?n - e) = Suc ?n" using e by simp
    then have app: "[d..<Suc e] @ [Suc e..<Suc ?n] = [d..<Suc ?n]"
      using e upt_add_eq_append [of d "Suc e" "?n - e"] by (simp del: upt_Suc)
    have "concat (map daysOf (monthRanges y m d)) =
        daysOf (d, e) @ concat (map daysOf (monthRanges y m (Suc e)))"
      by (simp only: r list.map concat.simps)
    also have "\<dots> = [d..<Suc e] @ [Suc e..<Suc ?n]"
      by (simp only: ih daysOf_def fst_conv snd_conv)
    finally show ?thesis by (simp only: app)
  qed
qed

lemma ranges_bounds:
  "p \<in> set (monthRanges y m d) \<Longrightarrow> 1 \<le> d \<Longrightarrow>
   d \<le> fst p \<and> fst p \<le> snd p \<and> snd p \<le> daysInMonth y m \<and> spanOf p \<le> 7"
proof (induction y m d rule: monthRanges.induct)
  case (1 y m d)
  let ?n = "daysInMonth y m"
  show ?case
  proof (cases "d \<le> ?n")
    case False
    then show ?thesis using "1.prems" by (simp add: monthRanges_out)
  next
    case True
    define e where "e = min (d + (6 - weekdayOf y m d)) ?n"
    have e: "d \<le> e" "e \<le> ?n" "e \<le> d + 6" using True by (simp_all add: e_def)
    from "1.prems" True have "p = (d, e) \<or> p \<in> set (monthRanges y m (Suc e))"
      by (simp add: monthRanges_in [OF _ True] e_def [symmetric])
    then show ?thesis
    proof
      assume "p = (d, e)"
      then show ?thesis using e by (simp add: spanOf_def)
    next
      assume "p \<in> set (monthRanges y m (Suc e))"
      then have "Suc e \<le> fst p \<and> fst p \<le> snd p \<and> snd p \<le> ?n \<and> spanOf p \<le> 7"
        using "1.prems" True by (intro "1.IH" [OF _ e_def]) simp_all
      then show ?thesis using e by simp
    qed
  qed
qed

lemma ranges_first:
  "1 \<le> d \<Longrightarrow> d \<le> daysInMonth y m \<Longrightarrow>
   monthRanges y m d \<noteq> [] \<and> fst (hd (monthRanges y m d)) = d"
  by (simp add: monthRanges_in)

lemma ranges_last:
  "1 \<le> d \<Longrightarrow> d \<le> daysInMonth y m \<Longrightarrow> snd (last (monthRanges y m d)) = daysInMonth y m"
proof (induction y m d rule: monthRanges.induct)
  case (1 y m d)
  let ?n = "daysInMonth y m"
  define e where "e = min (d + (6 - weekdayOf y m d)) ?n"
  have e: "d \<le> e" "e \<le> ?n" using "1.prems" by (simp_all add: e_def)
  have r: "monthRanges y m d = (d, e) # monthRanges y m (Suc e)"
    using "1.prems" by (simp add: monthRanges_in e_def [symmetric])
  show ?case
  proof (cases "Suc e \<le> ?n")
    case True
    then have "snd (last (monthRanges y m (Suc e))) = ?n"
      using "1.prems" by (intro "1.IH" [OF _ e_def]) simp_all
    moreover have "monthRanges y m (Suc e) \<noteq> []"
      using True by (simp add: ranges_first)
    ultimately show ?thesis by (simp add: r)
  next
    case False
    then have "e = ?n" using e by simp
    then show ?thesis by (simp add: r monthRanges_out)
  qed
qed

text \<open>The day after a Saturday inside the month is a Sunday.\<close>

lemma weekdayOf_after:
  assumes "d + (6 - weekdayOf y m d) < daysInMonth y m"
  shows "weekdayOf y m (Suc (d + (6 - weekdayOf y m d))) = 0"
proof -
  let ?X = "dayNumber y m 0 + int d + 4"
  have w: "int (weekdayOf y m d) = ?X mod 7" by (rule weekdayOf_eq)
  have le: "weekdayOf y m d \<le> 6" by (rule weekdayOf_le)
  have "int (weekdayOf y m (Suc (d + (6 - weekdayOf y m d)))) =
      (dayNumber y m 0 + int (Suc (d + (6 - weekdayOf y m d))) + 4) mod 7"
    by (rule weekdayOf_eq)
  also have "dayNumber y m 0 + int (Suc (d + (6 - weekdayOf y m d))) + 4 = ?X - ?X mod 7 + 7"
    using le w by simp
  also have "?X - ?X mod 7 = 7 * (?X div 7)"
    by (simp add: minus_mod_eq_mult_div)
  also have "(7 * (?X div 7) + 7) mod 7 = 0" by simp
  finally show ?thesis by simp
qed

lemma sunday_spans:
  "1 \<le> d \<Longrightarrow> weekdayOf y m d = 0 \<Longrightarrow> p \<in> set (butlast (monthRanges y m d)) \<Longrightarrow> spanOf p = 7"
proof (induction y m d rule: monthRanges.induct)
  case (1 y m d)
  let ?n = "daysInMonth y m"
  show ?case
  proof (cases "d \<le> ?n")
    case False
    then show ?thesis using "1.prems" by (simp add: monthRanges_out)
  next
    case True
    define e where "e = min (d + (6 - weekdayOf y m d)) ?n"
    have r: "monthRanges y m d = (d, e) # monthRanges y m (Suc e)"
      unfolding e_def using "1.prems"(1) True by (intro monthRanges_in) simp_all
    show ?thesis
    proof (cases "Suc e \<le> ?n")
      case False
      then have "monthRanges y m (Suc e) = []" by (simp add: monthRanges_out)
      then show ?thesis using "1.prems" by (simp add: r)
    next
      case in_month: True
      then have ed: "e = d + 6" "d + (6 - weekdayOf y m d) < ?n"
        using "1.prems"(2) by (simp_all add: e_def min_def split: if_splits)
      have ne: "monthRanges y m (Suc e) \<noteq> []" using in_month by (simp add: ranges_first)
      have sun: "weekdayOf y m (Suc e) = 0"
        using weekdayOf_after [OF ed(2)] "1.prems"(2) ed(1) by simp
      from "1.prems"(3) ne have "p = (d, e) \<or> p \<in> set (butlast (monthRanges y m (Suc e)))"
        by (simp add: r)
      then show ?thesis
      proof
        assume "p = (d, e)"
        then show ?thesis by (simp add: spanOf_def ed)
      next
        assume "p \<in> set (butlast (monthRanges y m (Suc e)))"
        then show ?thesis
          using "1.prems"(1) True sun by (intro "1.IH" [OF _ e_def]) simp_all
      qed
    qed
  qed
qed

lemma middle_spans:
  assumes "p \<in> set (butlast (tl (monthRanges y m 1)))"
  shows "spanOf p = 7"
proof -
  let ?n = "daysInMonth y m"
  define e where "e = min (1 + (6 - weekdayOf y m 1)) ?n"
  have n: "1 \<le> ?n" using daysInMonth_bounds(1) [of y m] by simp
  have r: "monthRanges y m 1 = (1, e) # monthRanges y m (Suc e)"
    unfolding e_def using n by (intro monthRanges_in) simp_all
  show ?thesis
  proof (cases "Suc e \<le> ?n")
    case False
    then have "monthRanges y m (Suc e) = []" by (simp add: monthRanges_out)
    then show ?thesis using assms unfolding r by simp
  next
    case True
    then have lt: "1 + (6 - weekdayOf y m 1) < ?n" and e: "e = 1 + (6 - weekdayOf y m 1)"
      by (simp_all add: e_def min_def split: if_splits)
    have "weekdayOf y m (Suc e) = 0" using weekdayOf_after [OF lt] e by simp
    moreover from assms have "p \<in> set (butlast (monthRanges y m (Suc e)))"
      unfolding r by simp
    ultimately show ?thesis by (intro sunday_spans [of "Suc e" y m p]) simp_all
  qed
qed

section \<open>Formatting a date and parsing it back\<close>

lemma digit_cases: "k < 10 \<Longrightarrow> k = 0 \<or> k = 1 \<or> k = 2 \<or> k = 3 \<or> k = 4 \<or> k = 5 \<or> k = 6 \<or> k = 7 \<or> k = 8 \<or> k = (9::nat)"
  by arith

lemma digitChar_ok: "k < 10 \<Longrightarrow> isDigit (digitChar k) \<and> digitVal (digitChar k) = k"
  by (drule digit_cases) (auto simp: digitChar_def isDigit_def digitVal_def)

lemma showNat_small: "n < 10 \<Longrightarrow> showNat n = [digitChar n]"
  by (subst showNat.simps) simp

lemma showNat_big: "\<not> n < 10 \<Longrightarrow> showNat n = showNat (n div 10) @ [digitChar (n mod 10)]"
  by (subst showNat.simps) simp

lemma digitChar_0: "digitChar 0 = CHR ''0''"
  by (simp add: digitChar_def)

lemma pad2:
  assumes "n < 100"
  shows "padStart (showNat n) 2 CHR ''0'' = [digitChar (n div 10), digitChar (n mod 10)]"
proof (cases "n < 10")
  case True
  then show ?thesis by (simp add: showNat_small padStart_def digitChar_0)
next
  case False
  moreover have "n div 10 < 10" using assms by simp
  ultimately show ?thesis by (simp add: showNat_big showNat_small padStart_def)
qed

lemma pad4:
  assumes "100 \<le> n" "n < 10000"
  shows "padStart (showNat n) 4 CHR ''0'' =
     [digitChar (n div 10 div 10 div 10), digitChar (n div 10 div 10 mod 10),
      digitChar (n div 10 mod 10), digitChar (n mod 10)]"
proof -
  have a: "\<not> n < 10" "\<not> n div 10 < 10" using assms by simp_all
  have s2: "showNat n = showNat (n div 10 div 10) @ [digitChar (n div 10 mod 10), digitChar (n mod 10)]"
    by (simp add: showNat_big [OF a(1)] showNat_big [OF a(2)])
  show ?thesis
  proof (cases "n div 10 div 10 < 10")
    case True
    then have "n div 10 div 10 div 10 = 0" by simp
    moreover have "n div 10 div 10 mod 10 = n div 10 div 10" using True by simp
    ultimately show ?thesis
      by (simp add: s2 showNat_small [OF True] padStart_def digitChar_0)
  next
    case False
    have "n div 10 div 10 div 10 < 10" using assms by (simp add: div_mult2_eq)
    then show ?thesis
      by (simp add: s2 showNat_big [OF False] showNat_small padStart_def)
  qed
qed

lemma natOfDigits2: "a < 10 \<Longrightarrow> b < 10 \<Longrightarrow> natOfDigits [digitChar a, digitChar b] = 10 * a + b"
  by (simp add: natOfDigits_def digitChar_ok)

lemma natOfDigits4:
  "a < 10 \<Longrightarrow> b < 10 \<Longrightarrow> c < 10 \<Longrightarrow> d < 10 \<Longrightarrow>
   natOfDigits [digitChar a, digitChar b, digitChar c, digitChar d] = 10 * (10 * (10 * a + b) + c) + d"
  by (simp add: natOfDigits_def digitChar_ok)


lemma format_digits:
  assumes "100 \<le> y" "y \<le> 9999" "m < 12" "d \<le> 31"
  shows "format (dayOf y m d) YYYY_MM_DD =
     [digitChar (nat y div 10 div 10 div 10), digitChar (nat y div 10 div 10 mod 10),
      digitChar (nat y div 10 mod 10), digitChar (nat y mod 10), CHR ''-'',
      digitChar (Suc m div 10), digitChar (Suc m mod 10), CHR ''-'',
      digitChar (d div 10), digitChar (d mod 10)]"
proof -
  have "fmt_YYYY \<lparr>year_of = y, month_of = m, date_of = d, ms_of = 0\<rparr> =
      [digitChar (nat y div 10 div 10 div 10), digitChar (nat y div 10 div 10 mod 10),
       digitChar (nat y div 10 mod 10), digitChar (nat y mod 10)]"
    using assms(1,2) pad4 [of "nat y"] by (simp add: fmt_YYYY_def showInt_def)
  moreover have "fmt_MM \<lparr>year_of = y, month_of = m, date_of = d, ms_of = 0\<rparr> =
      [digitChar (Suc m div 10), digitChar (Suc m mod 10)]"
    using assms(3) pad2 [of "Suc m"] by (simp add: fmt_MM_def)
  moreover have "fmt_DD \<lparr>year_of = y, month_of = m, date_of = d, ms_of = 0\<rparr> =
      [digitChar (d div 10), digitChar (d mod 10)]"
    using assms(4) pad2 [of d] by (simp add: fmt_DD_def)
  ultimately show ?thesis by (simp add: format_def dayOf_def)
qed

lemma dayjs_format:
  assumes "100 \<le> y" "y \<le> 9999" "m < 12" "1 \<le> d" "d \<le> daysInMonth y m"
  shows "dayjs h (format (dayOf y m d) YYYY_MM_DD) = dayOf y m d"
proof -
  let ?n = "nat y"
  have d31: "d \<le> 31" using assms(5) daysInMonth_bounds(2) [of y m] by simp
  let ?s = "format (dayOf y m d) YYYY_MM_DD"
  note s = format_digits [OF assms(1,2,3) d31]
  have dg: "?n div 10 div 10 div 10 < 10" "?n div 10 div 10 mod 10 < 10" "?n div 10 mod 10 < 10"
    "?n mod 10 < 10" "Suc m div 10 < 10" "Suc m mod 10 < 10" "d div 10 < 10" "d mod 10 < 10"
    using assms(2,3) d31 by (simp_all add: div_mult2_eq)
  have plain: "isPlainDate ?s"
    unfolding s using dg by (simp add: isPlainDate_def digitChar_ok)
  have t4: "take 4 ?s = [digitChar (?n div 10 div 10 div 10), digitChar (?n div 10 div 10 mod 10),
      digitChar (?n div 10 mod 10), digitChar (?n mod 10)]"
    and t2: "take 2 (drop 5 ?s) = [digitChar (Suc m div 10), digitChar (Suc m mod 10)]"
    and d8: "drop 8 ?s = [digitChar (d div 10), digitChar (d mod 10)]"
    unfolding s by simp_all
  have yv: "natOfDigits (take 4 ?s) = ?n"
    by (simp only: t4 natOfDigits4 [OF dg(1-4)] mult_div_mod_eq)
  have mv: "natOfDigits (take 2 (drop 5 ?s)) = Suc m"
    by (simp only: t2 natOfDigits2 [OF dg(5,6)] mult_div_mod_eq)
  have dv: "natOfDigits (drop 8 ?s) = d"
    by (simp only: d8 natOfDigits2 [OF dg(7,8)] mult_div_mod_eq)
  have "dayjs h ?s = Valid (newDate (int ?n) (Suc m - 1) (int d) 0)"
    using assms(3,4) d31 by (simp only: dayjs_def yv mv dv Let_def plain) simp
  also have "newDate (int ?n) (Suc m - 1) (int d) 0 = civilOf y m (int d) 0"
    using assms(1) by (simp add: newDate_def)
  also have "\<dots> = \<lparr>year_of = y, month_of = m, date_of = d, ms_of = 0\<rparr>"
    using assms by (simp add: civilOf_in)
  finally show ?thesis by (simp add: dayOf_def)
qed

lemma timeOf_le_days:
  "timeOf \<lparr>year_of = y, month_of = m, date_of = a, ms_of = 0\<rparr> \<le>
   timeOf \<lparr>year_of = y, month_of = m, date_of = b, ms_of = 0\<rparr> \<longleftrightarrow> a \<le> b"
  by (simp add: timeOf_mk)

text \<open>
  A week offered by the picker, applied to an aggregate of the same month: the aggregate
  is kept exactly when its day lies between the first and the last day of the week.
\<close>

lemma picked_week_days:
  assumes "100 \<le> y" "y \<le> 9999" "m < 12" "sm \<noteq> ''all''"
    and "1 \<le> a" "a \<le> daysInMonth y m" "1 \<le> b" "b \<le> daysInMonth y m"
    and "1 \<le> d" "d \<le> daysInMonth y m"
    and "Date item = format (dayOf y m d) YYYY_MM_DD"
  shows "applyFilters h now Weekly sm (Some (rangeOf y m (a, b))) [item] =
           (if a \<le> d \<and> d \<le> b then [item] else [])"
proof -
  have p: "dayjs h (wr_start (rangeOf y m (a, b))) = dayOf y m a"
          "dayjs h (wr_end (rangeOf y m (a, b))) = dayOf y m b"
          "dayjs h (Date item) = dayOf y m d"
    using assms by (simp_all add: rangeOf_def dayjs_format)
  have t: "\<not> isBefore (dayOf y m d) (dayOf y m a) \<longleftrightarrow> a \<le> d"
          "\<not> isAfter (dayOf y m d) (dayOf y m b) \<longleftrightarrow> d \<le> b"
    by (simp_all add: dayOf_def isBefore_def isAfter_def js_lt_def valueOf_def not_less timeOf_le_days)
  show ?thesis
    using assms(4) by (simp add: applyFilters_def modeFilter_def Let_def p t)
qed

section \<open>The examples, evaluated\<close>

lemmas eval_defs = dayjs_def isPlainDate_def isDigit_def natOfDigits_def digitVal_def newDate_def
  civilOf_def
  normDay_in daysInMonth_def isLeap_def format_def fmt_YYYY_def fmt_MM_def fmt_DD_def fmt_MMMM_def
  monthNames_def showInt_def showNat.simps padStart_def digitChar_def Number_js_def isValid_def
  orZero_def truthy_def validRow_def validRows_def rowRevenue_def rowDate_def rowMonth_def
  rowYear_def rowPerson_def sampleRow_def sampleHost_def

lemma validRows_sampleSheet:
  "validRows sampleSheet =
     [sampleRow ''2024-04-01'' ''100'' ''A'', sampleRow ''2024-04-01'' ''50'' ''A'',
      sampleRow ''2024-04-02'' ''75'' ''A'', sampleRow ''n/a'' ''abc'' ''B'']"
  by (simp add: sampleSheet_def validRows_def validRow_def truthy_def sampleRow_def)

lemma rows_sample:
  "rowDate sampleHost (sampleRow ''2024-04-01'' r c) = ''2024-04-01''"
  "rowMonth sampleHost (sampleRow ''2024-04-01'' r c) = ''April''"
  "rowYear sampleHost (sampleRow ''2024-04-01'' r c) = ''2024''"
  "rowDate sampleHost (sampleRow ''2024-04-02'' r c) = ''2024-04-02''"
  "rowMonth sampleHost (sampleRow ''2024-04-02'' r c) = ''April''"
  "rowYear sampleHost (sampleRow ''2024-04-02'' r c) = ''2024''"
  "rowDate sampleHost (sampleRow ''n/a'' r c) = ''Unknown''"
  "rowMonth sampleHost (sampleRow ''n/a'' r c) = ''Unknown''"
  "rowYear sampleHost (sampleRow ''n/a'' r c) = ''Unknown''"
  by (simp_all add: eval_defs)

lemma revenue_sample:
  "rowRevenue sampleHost (sampleRow d ''100'' c) = 100"
  "rowRevenue sampleHost (sampleRow d ''50'' c) = 50"
  "rowRevenue sampleHost (sampleRow d ''75'' c) = 75"
  "rowRevenue sampleHost (sampleRow d ''abc'' c) = 0"
  by (simp_all add: eval_defs)

lemma client_sample: "rClient (sampleRow d r c) = Some c"
  by (simp add: sampleRow_def)

lemma aggregate_sampleSheet:
  "aggregate sampleHost sampleSheet =
     [\<lparr>Date = ''2024-04-01'', SalesCount = 2, Revenue = 150, Clients = [''A''],
       Month = ''April'', Year = ''2024''\<rparr>,
      \<lparr>Date = ''2024-04-02'', SalesCount = 1, Revenue = 75, Clients = [''A''],
       Month = ''April'', Year = ''2024''\<rparr>,
      \<lparr>Date = ''Unknown'', SalesCount = 1, Revenue = 0, Clients = [''B''],
       Month = ''Unknown'', Year = ''Unknown''\<rparr>]"
  by (simp add: aggregate_def validRows_sampleSheet fst_forEachRow dailyStep_def rows_sample
      revenue_sample client_sample truthy_def sortBy_def Let_def)
     (simp add: sampleHost_def)

lemma dayjs_april:
  "dayjs sampleHost ''2024-04-03'' = Valid \<lparr>year_of = 2024, month_of = 3, date_of = 3, ms_of = 0\<rparr>"
  "dayjs sampleHost ''2024-04-07'' = Valid \<lparr>year_of = 2024, month_of = 3, date_of = 7, ms_of = 0\<rparr>"
  "dayjs sampleHost ''2024-04-08'' = Valid \<lparr>year_of = 2024, month_of = 3, date_of = 8, ms_of = 0\<rparr>"
  "dayjs sampleHost ''2024-04-13'' = Valid \<lparr>year_of = 2024, month_of = 3, date_of = 13, ms_of = 0\<rparr>"
  "dayjs sampleHost ''2024-04-20'' = Valid \<lparr>year_of = 2024, month_of = 3, date_of = 20, ms_of = 0\<rparr>"
  "dayjs sampleHost ''Unknown'' = InvalidDate"
  by (simp_all add: eval_defs)

lemma dayNumber_april: "dayNumber 2024 3 d = 19813 + d"
  by (simp add: dayNumber_def daysBeforeYear_def daysBeforeMonth_def daysInMonth_def isLeap_def upt_rec)

lemma timeOf_april:
  "timeOf \<lparr>year_of = 2024, month_of = 3, date_of = d, ms_of = t\<rparr> = (19813 + int d) * 86400000 + int t"
  by (simp add: timeOf_def dayNumber_april msPerDay_def)

lemma subtract_sampleNow:
  "subtract_day sampleNow 7 = Valid \<lparr>year_of = 2024, month_of = 3, date_of = 3, ms_of = 43200000\<rparr>"
  by (simp add: subtract_day_def add_day_def sampleNow_def civilOf_def normDay_in daysInMonth_def)

lemma laterThan_sample:
  "filter (laterThan sampleHost (subtract_day sampleNow 7)) sampleData =
     [sampleAggregate ''2024-04-08'' ''April'' ''2024'', sampleAggregate ''2024-04-13'' ''April'' ''2024'',
      sampleAggregate ''2024-04-20'' ''April'' ''2024'']"
  by (simp add: sampleData_def laterThan_def subtract_sampleNow sampleAggregate_def dayjs_april timeOf_april)

lemma inWeek_sample:
  "filter (inWeek sampleHost \<lparr>year_of = 2024, month_of = 3, date_of = 7, ms_of = 0\<rparr>
       \<lparr>year_of = 2024, month_of = 3, date_of = 13, ms_of = 0\<rparr>) sampleData =
     [sampleAggregate ''2024-04-08'' ''April'' ''2024'', sampleAggregate ''2024-04-13'' ''April'' ''2024'']"
  by (simp add: sampleData_def inWeek_def sampleAggregate_def dayjs_april timeOf_april)

lemma person_sample: "rowPerson (sampleRow d r c) = ''Unknown''"
  by (simp add: rowPerson_def truthy_def sampleRow_def)

lemma personArray_sampleSheet:
  "personArray sampleHost sampleSheet = [\<lparr>name = ''Unknown'', revenue = 225\<rparr>]"
  by (simp add: personArray_def validRows_sampleSheet snd_forEachRow personStep_def
      revenue_sample person_sample Let_def)

lemma split_april: "split_js CHR '' '' ''April 2024'' = [''April'', ''2024'']"
  and split_may: "split_js CHR '' '' ''May 2024'' = [''May'', ''2024'']"
  by simp_all

lemma monthStart_april:
  "monthStart sampleHost ''April 2024'' = Valid \<lparr>year_of = 2024, month_of = 3, date_of = 1, ms_of = 0\<rparr>"
  by (simp add: monthStart_def split_april element_def dayjs_def isPlainDate_def sampleHost_def
      startOf_month_def newDate_def civilOf_first)

lemma monthStart_may:
  "monthStart sampleHost ''May 2024'' = Valid \<lparr>year_of = 2024, month_of = 4, date_of = 1, ms_of = 0\<rparr>"
  by (simp add: monthStart_def split_may element_def dayjs_def isPlainDate_def sampleHost_def
      startOf_month_def newDate_def civilOf_first)

lemma weekdayOf_may: "weekdayOf 2024 4 d = nat ((19847 + int d) mod 7)"
  by (simp add: weekdayOf_def weekday_def dayNumber_def daysBeforeYear_def daysBeforeMonth_def
      daysInMonth_def isLeap_def upt_rec)

lemma weekdayOf_april: "weekdayOf 2024 3 d = nat ((19817 + int d) mod 7)"
  by (simp add: weekdayOf_def weekday_def dayNumber_def daysBeforeYear_def daysBeforeMonth_def
      daysInMonth_def isLeap_def upt_rec)

lemma monthRanges_may:
  "monthRanges 2024 4 1 = [(1, 4), (5, 11), (12, 18), (19, 25), (26, 31)]"
  by (simp add: monthRanges.simps weekdayOf_may daysInMonth_def Let_def)

lemma monthRanges_april:
  "monthRanges 2024 3 1 = [(1, 6), (7, 13), (14, 20), (21, 27), (28, 30)]"
  by (simp add: monthRanges.simps weekdayOf_april daysInMonth_def Let_def)

lemma rangeOf_may:
  "map (rangeOf 2024 4) [(1, 4), (5, 11), (12, 18), (19, 25), (26, 31)] =
     [\<lparr>wr_start = ''2024-05-01'', wr_end = ''2024-05-04''\<rparr>,
      \<lparr>wr_start = ''2024-05-05'', wr_end = ''2024-05-11''\<rparr>,
      \<lparr>wr_start = ''2024-05-12'', wr_end = ''2024-05-18''\<rparr>,
      \<lparr>wr_start = ''2024-05-19'', wr_end = ''2024-05-25''\<rparr>,
      \<lparr>wr_start = ''2024-05-26'', wr_end = ''2024-05-31''\<rparr>]"
  by (simp add: rangeOf_def dayOf_def format_def fmt_YYYY_def fmt_MM_def fmt_DD_def showInt_def
      showNat.simps padStart_def digitChar_def)

text \<open>A month string that does not parse gives no range: the loop does not start.\<close>

lemma weeks_unknown: "getWeeksOfMonth sampleHost ''Unknown Unknown'' = Some []"
proof -
  have "split_js CHR '' '' ''Unknown Unknown'' = [''Unknown'', ''Unknown'']" by simp
  then have "monthStart sampleHost ''Unknown Unknown'' = InvalidDate"
    by (simp add: monthStart_def element_def dayjs_def isPlainDate_def sampleHost_def startOf_month_def)
  then show ?thesis
    by (simp add: getWeeksOfMonth_def endOf_month_def weeksLoop.simps isBefore_def isSame_day_def
        js_lt_def js_le_def valueOf_def)
qed

section \<open>Properties of the accumulation in binary64\<close>

subsection \<open>Rounding\<close>

lemma bitlen_eqI: "2 ^ n \<le> a \<Longrightarrow> a < 2 ^ Suc n \<Longrightarrow> bitlen a = Suc n"
proof (induction n arbitrary: a)
  case 0
  then have "a = Suc 0" by simp
  then show ?case by (simp add: bitlen.simps [of "Suc 0"] bitlen.simps [of 0])
next
  case (Suc n)
  then have "2 ^ n \<le> a div 2" "a div 2 < 2 ^ Suc n" by simp_all
  then have "bitlen (a div 2) = Suc n" by (rule Suc.IH)
  moreover have "(0::nat) < 2 ^ Suc n" by simp
  then have "a \<noteq> 0" using Suc.prems(1) by linarith
  ultimately show ?case by (subst bitlen.simps) simp
qed

lemma bitlen_le: "a < 2 ^ n \<Longrightarrow> bitlen a \<le> n"
proof (induction n arbitrary: a)
  case 0
  then show ?case by (simp add: bitlen.simps [of 0])
next
  case (Suc n)
  then have "a div 2 < 2 ^ n" by simp
  then have "bitlen (a div 2) \<le> n" by (rule Suc.IH)
  then show ?case by (subst bitlen.simps) simp
qed

lemma bitlen_shift: "0 < a \<Longrightarrow> bitlen (a * 2 ^ k) = bitlen a + k"
proof (induction k)
  case 0
  show ?case by simp
next
  case (Suc k)
  have "bitlen (a * 2 ^ Suc k) = Suc (bitlen ((a * 2 ^ Suc k) div 2))"
    using Suc.prems by (subst bitlen.simps) simp
  also have "(a * 2 ^ Suc k) div 2 = a * 2 ^ k" by simp
  finally show ?case using Suc by simp
qed

text \<open>A magnitude of at most 53 bits, shifted, is not changed by the rounding.\<close>

lemma roundMag_exact:
  assumes "a < 2 ^ 53"
  shows "roundMag (a * 2 ^ k) = a * 2 ^ k"
proof (cases "a = 0")
  case True
  then show ?thesis by (simp add: roundMag_def roundAt_def bitlen.simps [of 0])
next
  case False
  define s where "s = bitlen (a * 2 ^ k) - 53"
  have "bitlen (a * 2 ^ k) = bitlen a + k" using False by (simp add: bitlen_shift)
  moreover have "bitlen a \<le> 53" using assms by (rule bitlen_le)
  ultimately have sk: "s \<le> k" by (simp add: s_def)
  then obtain j where k: "k = s + j" using le_Suc_ex by blast
  have b: "a * 2 ^ k = (a * 2 ^ j) * 2 ^ s" by (simp add: k power_add)
  have r: "roundAt (a * 2 ^ k) s = a * 2 ^ j"
    unfolding b by (simp add: roundAt_def)
  have "roundMag (a * 2 ^ k) = roundAt (a * 2 ^ k) s * 2 ^ s"
    by (simp add: roundMag_def Let_def s_def)
  also have "\<dots> = a * 2 ^ j * 2 ^ s" by (simp only: r)
  also have "\<dots> = a * 2 ^ k" by (simp add: k power_add)
  finally show ?thesis .
qed

text \<open>A magnitude of \<open>53 + s\<close> bits, shifted, loses its \<open>s\<close> lowest bits.\<close>

lemma roundAt_shift: "roundAt (a * 2 ^ k) (s + k) = roundAt a s"
proof -
  have d: "(a * 2 ^ k) div 2 ^ (s + k) = a div 2 ^ s"
    by (simp add: power_add)
  have m: "(a * 2 ^ k) mod 2 ^ (s + k) = (a mod 2 ^ s) * 2 ^ k"
    by (simp add: power_add mod_mult_mult2 [symmetric] mult.commute)
  have c1: "(2::nat) ^ (s + k) < 2 * (a mod 2 ^ s * 2 ^ k) \<longleftrightarrow> 2 ^ s < 2 * (a mod 2 ^ s)"
    by (simp add: power_add)
  have c2: "2 * (a mod 2 ^ s * 2 ^ k) = (2::nat) ^ (s + k) \<longleftrightarrow> 2 * (a mod 2 ^ s) = 2 ^ s"
    by (simp add: power_add)
  show ?thesis
    by (simp only: roundAt_def Let_def d m c1 c2)
qed

lemma roundMag_round:
  assumes "2 ^ (52 + s) \<le> a" "a < 2 ^ (53 + s)"
  shows "roundMag (a * 2 ^ k) = roundAt a s * 2 ^ (s + k)"
proof -
  have "2 ^ (52 + s + k) \<le> a * 2 ^ k" "a * 2 ^ k < 2 ^ Suc (52 + s + k)"
    using assms by (simp_all add: power_add)
  then have "bitlen (a * 2 ^ k) = Suc (52 + s + k)" by (rule bitlen_eqI)
  then show ?thesis by (simp add: roundMag_def Let_def roundAt_shift)
qed

lemma roundAt_le:
  assumes "a < 2 ^ (53 + s)"
  shows "roundAt a s \<le> 2 ^ 53"
proof -
  have "a div 2 ^ s < 2 ^ 53"
    using assms by (simp add: power_add less_mult_imp_div_less mult.commute)
  then show ?thesis by (simp add: roundAt_def Let_def)
qed

subsection \<open>Addition of doubles given by mantissa and exponent\<close>

lemma round64_nat:
  assumes "roundMag a < 2 ^ 2098"
  shows "round64 (int a) = Finite (int (roundMag a))"
  using assms by (simp add: round64_def Let_def)

lemma dbl_sum:
  assumes "0 \<le> m1" "0 \<le> m2" "- 1074 \<le> e2" "e2 \<le> e1"
  shows "add64 (dbl m1 e1) (dbl m2 e2) =
    round64 (int (nat (m1 * 2 ^ nat (e1 - e2) + m2) * 2 ^ nat (e2 + 1074)))"
proof -
  have e: "nat (e1 + 1074) = nat (e1 - e2) + nat (e2 + 1074)"
    using assms by linarith
  have "0 \<le> m1 * 2 ^ nat (e1 - e2) + m2" using assms by simp
  then have "int (nat (m1 * 2 ^ nat (e1 - e2) + m2) * 2 ^ nat (e2 + 1074)) =
      (m1 * 2 ^ nat (e1 - e2) + m2) * 2 ^ nat (e2 + 1074)"
    by simp
  also have "\<dots> = m1 * 2 ^ nat (e1 + 1074) + m2 * 2 ^ nat (e2 + 1074)"
    by (simp only: e power_add distrib_right mult.assoc)
  finally show ?thesis by (simp only: dbl_def add64.simps)
qed

lemma add64_dbl_exact:
  assumes "0 \<le> m1" "0 \<le> m2" "- 1074 \<le> e2" "e2 \<le> e1" "e2 < 971"
    and m: "m1 * 2 ^ nat (e1 - e2) + m2 = m" and b: "m < 2 ^ 53"
  shows "add64 (dbl m1 e1) (dbl m2 e2) = dbl m e2"
proof -
  define k where "k = nat (e2 + 1074)"
  define a where "a = nat m"
  have m0: "0 \<le> m" using assms(1,2) m by auto
  have a: "a < 2 ^ 53" using b m0 by (simp add: a_def nat_less_iff)
  have r: "roundMag (a * 2 ^ k) = a * 2 ^ k" using a by (rule roundMag_exact)
  have "k < 2045" using assms(3,5) by (simp add: k_def)
  then have kk: "53 + k < 2098" by simp
  have "a * 2 ^ k \<le> 2 ^ 53 * 2 ^ k" using a by simp
  also have "\<dots> = 2 ^ (53 + k)" by (simp only: power_add)
  also have "\<dots> < (2::nat) ^ 2098" using kk by (rule power_strict_increasing) simp
  finally have "roundMag (a * 2 ^ k) < 2 ^ 2098" by (simp only: r)
  then have "round64 (int (a * 2 ^ k)) = Finite (int (roundMag (a * 2 ^ k)))"
    by (rule round64_nat)
  also have "\<dots> = Finite (int (a * 2 ^ k))" by (simp only: r)
  also have "\<dots> = dbl m e2" using m0 by (simp add: dbl_def a_def k_def)
  finally show ?thesis
    by (simp only: dbl_sum [OF assms(1-4)] m a_def [symmetric] k_def [symmetric])
qed

lemma add64_dbl_round:
  assumes "0 \<le> m1" "0 \<le> m2" "- 1074 \<le> e2" "e2 \<le> e1" "e2 + int s < 971"
    and m: "nat (m1 * 2 ^ nat (e1 - e2) + m2) = a"
    and lo: "2 ^ (52 + s) \<le> a" and hi: "a < 2 ^ (53 + s)"
  shows "add64 (dbl m1 e1) (dbl m2 e2) = dbl (int (roundAt a s)) (e2 + int s)"
proof -
  define k where "k = nat (e2 + 1074)"
  have r: "roundMag (a * 2 ^ k) = roundAt a s * 2 ^ (s + k)"
    using lo hi by (rule roundMag_round)
  have "s + k < 2045" using assms(3,5) by (simp add: k_def)
  then have kk: "53 + (s + k) < 2098" by simp
  have "roundAt a s * 2 ^ (s + k) \<le> 2 ^ 53 * 2 ^ (s + k)"
    using roundAt_le [OF hi] by simp
  also have "\<dots> = 2 ^ (53 + (s + k))" by (simp only: power_add)
  also have "\<dots> < (2::nat) ^ 2098" using kk by (rule power_strict_increasing) simp
  finally have "roundMag (a * 2 ^ k) < 2 ^ 2098" by (simp only: r)
  then have "round64 (int (a * 2 ^ k)) = Finite (int (roundMag (a * 2 ^ k)))"
    by (rule round64_nat)
  also have "\<dots> = Finite (int (roundAt a s * 2 ^ (s + k)))" by (simp only: r)
  also have "\<dots> = dbl (int (roundAt a s)) (e2 + int s)"
  proof -
    have "nat (e2 + int s + 1074) = s + k" using assms(3) by (simp add: k_def)
    then show ?thesis by (simp add: dbl_def)
  qed
  finally show ?thesis
    by (simp only: dbl_sum [OF assms(1-4)] m k_def [symmetric])
qed

lemma add64_commute: "add64 (Finite a) (Finite b) = add64 (Finite b) (Finite a)"
  by (simp add: add.commute)

lemma dbl_zero: "Finite 0 = dbl 0 e"
  by (simp add: dbl_def)

lemma add64_zero_dbl:
  assumes "0 \<le> m" "m < 2 ^ 53" "- 1074 \<le> e" "e < 971"
  shows "add64 (Finite 0) (dbl m e) = dbl m e"
proof -
  have "add64 (dbl 0 e) (dbl m e) = dbl m e"
    using assms by (intro add64_dbl_exact) simp_all
  then show ?thesis by (simp only: dbl_zero [of e, symmetric])
qed

subsection \<open>The entries of the map of dates\<close>

lemma dailyStep64_update:
  "dailyStep64 h num m row = AList.update (rowDate h row) (touch64 num row (entryOr64 h row m)) m"
  by (auto simp add: dailyStep64_def touch64_def entryOr64_def freshEntry64_def Let_def
      split: option.splits)

lemma map_of_dailyStep64:
  "map_of (dailyStep64 h num m row) = (map_of m)(rowDate h row \<mapsto> touch64 num row (entryOr64 h row m))"
  by (simp add: dailyStep64_update update_conv')

lemma distinct_keys_fold64: "distinct (map fst (foldl (dailyStep64 h num) [] rows))"
  by (induction rows rule: rev_induct) (simp_all add: dailyStep64_update distinct_update)

lemma touch64_fields:
  "Date64 (touch64 num row e) = Date64 e"
  "SalesCount64 (touch64 num row e) = SalesCount64 e + 1"
  "Revenue64 (touch64 num row e) = add64 (Revenue64 e) (rowRevenue64 num row)"
  by (simp_all add: touch64_def Let_def)

lemma keys_fold64:
  "r \<in> set rows \<Longrightarrow> map_of (foldl (dailyStep64 h num) [] rows) (rowDate h r) \<noteq> None"
  by (induction rows rule: rev_induct) (auto simp add: map_of_dailyStep64)

lemma sumRevenue64_snoc:
  "sumRevenue64 num (rows @ [r]) = add64 (sumRevenue64 num rows) (rowRevenue64 num r)"
  by (simp add: sumRevenue64_def)

lemma entry_fold64:
  "map_of (foldl (dailyStep64 h num) [] rows) k = Some e \<Longrightarrow>
     Date64 e = k \<and> SalesCount64 e = length (filter (\<lambda>r. rowDate h r = k) rows) \<and>
     Revenue64 e = sumRevenue64 num (filter (\<lambda>r. rowDate h r = k) rows)"
proof (induction rows arbitrary: k e rule: rev_induct)
  case Nil
  then show ?case by simp
next
  case (snoc r rows)
  let ?m = "foldl (dailyStep64 h num) [] rows"
  show ?case
  proof (cases "k = rowDate h r")
    case False
    then have "map_of ?m k = Some e" using snoc.prems by (simp add: map_of_dailyStep64)
    then show ?thesis using False snoc.IH by auto
  next
    case True
    then have e: "e = touch64 num r (entryOr64 h r ?m)"
      using snoc.prems by (simp add: map_of_dailyStep64)
    show ?thesis
    proof (cases "map_of ?m k")
      case None
      have "filter (\<lambda>r. rowDate h r = k) rows = []"
      proof (rule ccontr)
        assume "filter (\<lambda>r. rowDate h r = k) rows \<noteq> []"
        then obtain x where "x \<in> set rows" "rowDate h x = k"
          by (auto simp add: filter_empty_conv)
        then show False using keys_fold64 [of x rows h num] None by simp
      qed
      then show ?thesis using None True e
        by (simp add: touch64_fields entryOr64_def freshEntry64_def sumRevenue64_def)
    next
      case (Some e')
      then have "entryOr64 h r ?m = e'" using True by (simp add: entryOr64_def)
      moreover note snoc.IH [OF Some]
      ultimately show ?thesis using True e
        by (simp add: touch64_fields sumRevenue64_snoc)
    qed
  qed
qed

lemma sum_SalesCount64_step:
  "sum_list (map (\<lambda>p. SalesCount64 (snd p)) (dailyStep64 h num m row)) =
   sum_list (map (\<lambda>p. SalesCount64 (snd p)) m) + 1"
proof (cases "map_of m (rowDate h row)")
  case None
  then show ?thesis
    by (simp add: dailyStep64_update sum_update_None touch64_fields entryOr64_def freshEntry64_def)
next
  case (Some e)
  from sum_update_Some [OF Some, of SalesCount64 "touch64 num row e"]
  show ?thesis using Some
    by (simp add: dailyStep64_update touch64_fields entryOr64_def)
qed

lemma sum_SalesCount64_fold:
  "sum_list (map (\<lambda>p. SalesCount64 (snd p)) (foldl (dailyStep64 h num) [] rows)) = length rows"
  by (induction rows rule: rev_induct) (simp_all add: sum_SalesCount64_step)

lemma sum_SalesCount64_aggregate:
  "sum_list (map SalesCount64 (aggregate64 h num sheetData)) = length (validRows sheetData)"
  using sum_SalesCount64_fold [of h num "validRows sheetData"]
  by (simp add: aggregate64_def sum_sortBy comp_def)

lemma set_aggregate64:
  "a \<in> set (aggregate64 h num sheetData) \<longleftrightarrow>
   (\<exists>k. map_of (foldl (dailyStep64 h num) [] (validRows sheetData)) k = Some a)"
  by (simp only: aggregate64_def set_sortBy in_values_iff [OF distinct_keys_fold64])

lemma Revenue64_aggregate:
  assumes "a \<in> set (aggregate64 h num sheetData)"
  shows "Revenue64 a = sumRevenue64 num (filter (\<lambda>r. rowDate h r = Date64 a) (validRows sheetData))"
proof -
  from assms obtain k where "map_of (foldl (dailyStep64 h num) [] (validRows sheetData)) k = Some a"
    by (auto simp add: set_aggregate64)
  from entry_fold64 [OF this] show ?thesis by simp
qed

subsection \<open>The other fields\<close>

text \<open>
  The accumulation in binary64 and the one in exact numbers build the same aggregates,
  but for the revenue.
\<close>

lemma map_values_update:
  "map (\<lambda>p. (fst p, f (snd p))) (AList.update k v al) =
   AList.update k (f v) (map (\<lambda>p. (fst p, f (snd p))) al)"
  by (induction al) auto

lemma map_of_map_values:
  "map_of (map (\<lambda>p. (fst p, f (snd p))) al) k = map_option f (map_of al k)"
  by (induction al) auto

lemma restOf_touch:
  "restOf e = restOf64 e' \<Longrightarrow> restOf (touch h row e) = restOf64 (touch64 num row e')"
  by (simp add: restOf_def restOf64_def touch_def touch64_def Let_def)

lemma restOf_freshEntry: "restOf (freshEntry h row) = restOf64 (freshEntry64 h row)"
  by (simp add: restOf_def restOf64_def freshEntry_def freshEntry64_def)

lemma restOf_dailyStep:
  assumes "map (\<lambda>p. (fst p, restOf (snd p))) m = map (\<lambda>p. (fst p, restOf64 (snd p))) m'"
  shows "map (\<lambda>p. (fst p, restOf (snd p))) (dailyStep h m row) =
         map (\<lambda>p. (fst p, restOf64 (snd p))) (dailyStep64 h num m' row)"
proof -
  have "map_option restOf (map_of m (rowDate h row)) = map_option restOf64 (map_of m' (rowDate h row))"
    using assms by (simp only: map_of_map_values [symmetric])
  then have "restOf (entryOr h row m) = restOf64 (entryOr64 h row m')"
    by (auto simp add: entryOr_def entryOr64_def restOf_freshEntry split: option.splits)
  then have "restOf (touch h row (entryOr h row m)) = restOf64 (touch64 num row (entryOr64 h row m'))"
    by (rule restOf_touch)
  then show ?thesis
    using assms by (simp only: dailyStep_update dailyStep64_update map_values_update)
qed

lemma restOf_fold:
  "map (\<lambda>p. (fst p, restOf (snd p))) (foldl (dailyStep h) [] rows) =
   map (\<lambda>p. (fst p, restOf64 (snd p))) (foldl (dailyStep64 h num) [] rows)"
  by (induction rows rule: rev_induct) (simp_all add: restOf_dailyStep)

lemma map_insertBy:
  assumes "\<And>a b. cmp a b = cmp' (f a) (f b)"
  shows "map f (insertBy cmp x xs) = insertBy cmp' (f x) (map f xs)"
  by (induction xs) (simp_all add: assms)

lemma map_sortBy:
  assumes "\<And>a b. cmp a b = cmp' (f a) (f b)"
  shows "map f (sortBy cmp xs) = sortBy cmp' (map f xs)"
  unfolding sortBy_def by (induction xs) (simp_all add: map_insertBy [where cmp' = cmp', OF assms])

lemma restOf_aggregate64:
  "map restOf64 (aggregate64 h num sheetData) = map restOf (aggregate h sheetData)"
proof -
  let ?c = "\<lambda>p q :: string \<times> nat \<times> string list \<times> string \<times> string. localeCompare h (fst p) (fst q)"
  let ?m = "foldl (dailyStep h) [] (validRows sheetData)"
  let ?m' = "foldl (dailyStep64 h num) [] (validRows sheetData)"
  have "map snd (map (\<lambda>p. (fst p, restOf (snd p))) ?m) = map snd (map (\<lambda>p. (fst p, restOf64 (snd p))) ?m')"
    by (simp only: restOf_fold [of h "validRows sheetData" num])
  then have e: "map restOf (map snd ?m) = map restOf64 (map snd ?m')"
    by (simp add: comp_def)
  have "map restOf64 (aggregate64 h num sheetData) = sortBy ?c (map restOf64 (map snd ?m'))"
    unfolding aggregate64_def by (rule map_sortBy) (simp add: restOf64_def)
  moreover have "map restOf (aggregate h sheetData) = sortBy ?c (map restOf (map snd ?m))"
    unfolding aggregate_def fst_forEachRow by (rule map_sortBy) (simp add: restOf_def)
  ultimately show ?thesis by (simp only: e)
qed

subsection \<open>Whole numbers\<close>

text \<open>Sums of whole numbers below \<open>2 ^ 53\<close> are exact.\<close>

lemma round64_whole:
  assumes "\<bar>c\<bar> < 2 ^ 53"
  shows "round64 (c * 2 ^ 1074) = Finite (c * 2 ^ 1074)"
proof -
  define a where "a = nat \<bar>c\<bar>"
  define k :: nat where "k = 1074"
  have a: "a < 2 ^ 53" using assms by (simp add: a_def nat_less_iff)
  have i: "int (a * 2 ^ k) = \<bar>c\<bar> * 2 ^ k" by (simp add: a_def)
  have "\<bar>c * 2 ^ k\<bar> = \<bar>c\<bar> * 2 ^ k" by (simp add: abs_mult)
  then have n: "nat \<bar>c * 2 ^ k\<bar> = a * 2 ^ k" using i by (metis nat_int)
  have r: "roundMag (a * 2 ^ k) = a * 2 ^ k" using a by (rule roundMag_exact)
  have "a * 2 ^ k \<le> 2 ^ 53 * 2 ^ k" using a by simp
  also have "\<dots> = 2 ^ (53 + k)" by (simp only: power_add)
  also have "\<dots> < (2::nat) ^ 2098" by (rule power_strict_increasing) (simp_all add: k_def)
  finally have lt: "\<not> 2 ^ 2098 \<le> a * 2 ^ k" by simp
  have s: "c * 2 ^ k < 0 \<longleftrightarrow> c < 0" by (simp add: mult_less_0_iff)
  have "round64 (c * 2 ^ k) = Finite (c * 2 ^ k)"
    unfolding round64_def Let_def n r using lt i s by (cases "c < 0") simp_all
  then show ?thesis by (simp only: k_def)
qed

lemma add64_whole:
  assumes "\<bar>a + b\<bar> < 2 ^ 53"
  shows "add64 (whole a) (whole b) = whole (a + b)"
proof -
  have "a * 2 ^ 1074 + b * 2 ^ 1074 = (a + b) * (2 ^ 1074 :: int)" by (simp only: distrib_right)
  then show ?thesis
    unfolding whole_def add64.simps using round64_whole [OF assms] by (simp only:)
qed

lemma whole_zero: "Finite 0 = whole 0"
  by (simp add: whole_def)

lemma foldl_add64_whole:
  assumes "\<forall>x \<in> set xs. f x = whole (g x)" "\<bar>s\<bar> + (\<Sum>x\<leftarrow>xs. \<bar>g x\<bar>) < 2 ^ 53"
  shows "foldl (\<lambda>acc x. add64 acc (f x)) (whole s) xs = whole (s + (\<Sum>x\<leftarrow>xs. g x))"
  using assms
proof (induction xs arbitrary: s)
  case Nil
  then show ?case by simp
next
  case (Cons x xs)
  have nn: "0 \<le> (\<Sum>x\<leftarrow>xs. \<bar>g x\<bar>)" by (rule sum_list_nonneg) auto
  have "\<bar>s + g x\<bar> < 2 ^ 53" using Cons.prems(2) nn by simp
  then have st: "add64 (whole s) (whole (g x)) = whole (s + g x)" by (rule add64_whole)
  have "\<bar>s + g x\<bar> + (\<Sum>x\<leftarrow>xs. \<bar>g x\<bar>) < 2 ^ 53" using Cons.prems(2) by simp
  moreover have "\<forall>x \<in> set xs. f x = whole (g x)" using Cons.prems(1) by simp
  ultimately have "foldl (\<lambda>acc x. add64 acc (f x)) (whole (s + g x)) xs = whole (s + g x + (\<Sum>x\<leftarrow>xs. g x))"
    by (intro Cons.IH)
  moreover have "f x = whole (g x)" using Cons.prems(1) by simp
  ultimately show ?case using st by (simp add: add.assoc)
qed

lemma sumRevenue64_whole:
  assumes "\<forall>r \<in> set rows. rowRevenue64 num r = whole (amt r)" "(\<Sum>r\<leftarrow>rows. \<bar>amt r\<bar>) < 2 ^ 53"
  shows "sumRevenue64 num rows = whole (\<Sum>r\<leftarrow>rows. amt r)"
proof -
  have "foldl (\<lambda>acc r. add64 acc (rowRevenue64 num r)) (whole 0) rows = whole (0 + (\<Sum>r\<leftarrow>rows. amt r))"
    using assms by (intro foldl_add64_whole) simp_all
  then show ?thesis by (simp add: sumRevenue64_def foldl_map whole_zero)
qed

lemma sum_abs_filter_le:
  fixes g :: "'a \<Rightarrow> int"
  shows "(\<Sum>x\<leftarrow>filter P xs. \<bar>g x\<bar>) \<le> (\<Sum>x\<leftarrow>xs. \<bar>g x\<bar>)"
  by (induction xs) auto

lemma abs_sum_list_le:
  fixes g :: "'a \<Rightarrow> int"
  shows "\<bar>\<Sum>x\<leftarrow>xs. g x\<bar> \<le> (\<Sum>x\<leftarrow>xs. \<bar>g x\<bar>)"
  by (induction xs) auto

text \<open>The rows of the dates of a duplicate-free list of keys that has every date.\<close>

lemma sum_list_other:
  fixes x :: int
  shows "c \<notin> set ks \<Longrightarrow> (\<Sum>k\<leftarrow>ks. if c = k then x else 0) = 0"
  by (induction ks) auto

lemma sum_list_indicator:
  fixes x :: int
  shows "distinct ks \<Longrightarrow> c \<in> set ks \<Longrightarrow> (\<Sum>k\<leftarrow>ks. if c = k then x else 0) = x"
  by (induction ks) (auto simp add: sum_list_other)

lemma sum_partition:
  fixes g :: "'a \<Rightarrow> int"
  assumes "distinct ks"
  shows "\<forall>r \<in> set rows. f r \<in> set ks \<Longrightarrow>
    (\<Sum>k\<leftarrow>ks. \<Sum>r\<leftarrow>filter (\<lambda>r. f r = k) rows. g r) = (\<Sum>r\<leftarrow>rows. g r)"
proof (induction rows)
  case Nil
  show ?case by simp
next
  case (Cons r rs)
  have "(\<Sum>k\<leftarrow>ks. \<Sum>x\<leftarrow>filter (\<lambda>x. f x = k) (r # rs). g x) =
      (\<Sum>k\<leftarrow>ks. (if f r = k then g r else 0) + (\<Sum>x\<leftarrow>filter (\<lambda>x. f x = k) rs. g x))"
    by (intro arg_cong [where f = sum_list] map_cong refl) simp
  also have "\<dots> = (\<Sum>k\<leftarrow>ks. if f r = k then g r else 0) + (\<Sum>k\<leftarrow>ks. \<Sum>x\<leftarrow>filter (\<lambda>x. f x = k) rs. g x)"
    by (simp only: sum_list_addf)
  also have "(\<Sum>k\<leftarrow>ks. if f r = k then g r else 0) = g r"
    using assms Cons.prems by (intro sum_list_indicator) simp_all
  also have "(\<Sum>k\<leftarrow>ks. \<Sum>x\<leftarrow>filter (\<lambda>x. f x = k) rs. g x) = (\<Sum>x\<leftarrow>rs. g x)"
    using Cons.prems by (intro Cons.IH) simp
  finally show ?case by simp
qed

lemma Date64_keys_fold:
  "map (\<lambda>p. Date64 (snd p)) (foldl (dailyStep64 h num) [] rows) = map fst (foldl (dailyStep64 h num) [] rows)"
proof (rule map_cong [OF refl])
  fix p assume p: "p \<in> set (foldl (dailyStep64 h num) [] rows)"
  have "map_of (foldl (dailyStep64 h num) [] rows) (fst p) = Some (snd p)"
    using p distinct_keys_fold64 [of h num rows] by simp
  from entry_fold64 [OF this] show "Date64 (snd p) = fst p" by simp
qed

lemma distinct_Date64_aggregate: "distinct (map Date64 (aggregate64 h num sheetData))"
proof -
  let ?m = "foldl (dailyStep64 h num) [] (validRows sheetData)"
  have "map Date64 (map snd ?m) = map fst ?m"
    using Date64_keys_fold [of h num "validRows sheetData"] by (simp add: comp_def)
  then have "distinct (map Date64 (map snd ?m))"
    using distinct_keys_fold64 [of h num "validRows sheetData"] by (simp only:)
  then show ?thesis
    by (simp only: aggregate64_def distinct_map_sortBy)
qed

lemma dates_aggregate64:
  assumes "r \<in> set (validRows sheetData)"
  shows "rowDate h r \<in> set (map Date64 (aggregate64 h num sheetData))"
proof -
  let ?m = "foldl (dailyStep64 h num) [] (validRows sheetData)"
  from keys_fold64 [OF assms, of h num] obtain e where e: "map_of ?m (rowDate h r) = Some e"
    by auto
  then have "e \<in> set (aggregate64 h num sheetData)" by (auto simp add: set_aggregate64)
  moreover from entry_fold64 [OF e] have "Date64 e = rowDate h r" by simp
  ultimately show ?thesis by force
qed

lemma totalRevenue64_whole:
  assumes w: "\<forall>r \<in> set (validRows sheetData). rowRevenue64 num r = whole (amt r)"
    and b: "(\<Sum>r\<leftarrow>validRows sheetData. \<bar>amt r\<bar>) < 2 ^ 53"
  shows "totalRevenue64 (aggregate64 h num sheetData) = whole (\<Sum>r\<leftarrow>validRows sheetData. amt r)"
proof -
  let ?rows = "validRows sheetData"
  let ?as = "aggregate64 h num sheetData"
  define bucket where "bucket k = filter (\<lambda>r. rowDate h r = k) ?rows" for k
  define bamt where "bamt a = (\<Sum>r\<leftarrow>bucket (Date64 a). amt r)" for a :: AggregatedRow64
  have le: "(\<Sum>r\<leftarrow>bucket k. \<bar>amt r\<bar>) \<le> (\<Sum>r\<leftarrow>?rows. \<bar>amt r\<bar>)" for k
    unfolding bucket_def by (rule sum_abs_filter_le)
  have rev: "Revenue64 a = whole (bamt a)" if "a \<in> set ?as" for a
  proof -
    have "Revenue64 a = sumRevenue64 num (bucket (Date64 a))"
      unfolding bucket_def using that by (rule Revenue64_aggregate)
    also have "\<dots> = whole (\<Sum>r\<leftarrow>bucket (Date64 a). amt r)"
    proof (rule sumRevenue64_whole)
      show "\<forall>r \<in> set (bucket (Date64 a)). rowRevenue64 num r = whole (amt r)"
        using w by (simp add: bucket_def)
      show "(\<Sum>r\<leftarrow>bucket (Date64 a). \<bar>amt r\<bar>) < 2 ^ 53"
        using le [of "Date64 a"] b by simp
    qed
    finally show ?thesis by (simp only: bamt_def)
  qed
  have cover: "\<forall>r \<in> set ?rows. rowDate h r \<in> set (map Date64 ?as)"
    using dates_aggregate64 by blast
  have part: "(\<Sum>k\<leftarrow>map Date64 ?as. \<Sum>r\<leftarrow>filter (\<lambda>r. rowDate h r = k) ?rows. g r) = (\<Sum>r\<leftarrow>?rows. g r)"
    for g :: "RawRow \<Rightarrow> int"
    using distinct_Date64_aggregate cover by (rule sum_partition)
  have total: "(\<Sum>a\<leftarrow>?as. bamt a) = (\<Sum>r\<leftarrow>?rows. amt r)"
    using part [of amt] by (simp add: bamt_def bucket_def comp_def)
  have "(\<Sum>a\<leftarrow>?as. \<bar>bamt a\<bar>) \<le> (\<Sum>a\<leftarrow>?as. \<Sum>r\<leftarrow>bucket (Date64 a). \<bar>amt r\<bar>)"
    unfolding bamt_def by (intro sum_list_mono abs_sum_list_le)
  also have "\<dots> = (\<Sum>r\<leftarrow>?rows. \<bar>amt r\<bar>)"
    using part [of "\<lambda>r. \<bar>amt r\<bar>"] by (simp add: bucket_def comp_def)
  finally have bound: "\<bar>0\<bar> + (\<Sum>a\<leftarrow>?as. \<bar>bamt a\<bar>) < 2 ^ 53" using b by simp
  have "foldl (\<lambda>acc a. add64 acc (Revenue64 a)) (whole 0) ?as = whole (0 + (\<Sum>a\<leftarrow>?as. bamt a))"
    using rev bound by (intro foldl_add64_whole) simp_all
  then show ?thesis by (simp add: totalRevenue64_def whole_zero total)
qed

subsection \<open>The example with fractions\<close>

lemma orZero64_dbl: "orZero64 (dbl m e) = dbl m e"
  by (simp add: orZero64_def dbl_def)

lemma revenue64_sample:
  "rowRevenue64 sampleNumber64 (sampleRow d ''0.1'' c) = dbl 3602879701896397 (- 55)"
  "rowRevenue64 sampleNumber64 (sampleRow d ''0.2'' c) = dbl 3602879701896397 (- 54)"
  "rowRevenue64 sampleNumber64 (sampleRow d ''2.2'' c) = dbl 2476979795053773 (- 50)"
  by (simp_all add: rowRevenue64_def Number_js64_def sampleNumber64_def sampleRow_def isDigit_def
      orZero64_dbl)

lemma validRows_sampleSheet64:
  "validRows sampleSheet64 =
     [sampleRow ''2024-04-01'' ''0.1'' ''A'', sampleRow ''2024-04-02'' ''0.2'' ''A'',
      sampleRow ''2024-04-01'' ''2.2'' ''A'']"
  by (simp add: sampleSheet64_def validRows_def validRow_def truthy_def sampleRow_def)

lemma sum_0_01: "add64 (Finite 0) (dbl 3602879701896397 (- 55)) = dbl 3602879701896397 (- 55)"
  by (rule add64_zero_dbl) simp_all

lemma sum_0_02: "add64 (Finite 0) (dbl 3602879701896397 (- 54)) = dbl 3602879701896397 (- 54)"
  by (rule add64_zero_dbl) simp_all

lemma sum_0_23: "add64 (Finite 0) (dbl 5179139571476071 (- 51)) = dbl 5179139571476071 (- 51)"
  by (rule add64_zero_dbl) simp_all

lemma sum_23_02:
  "add64 (dbl 5179139571476071 (- 51)) (dbl 3602879701896397 (- 54)) = dbl 5629499534213121 (- 51)"
proof -
  have "add64 (dbl 5179139571476071 (- 51)) (dbl 3602879701896397 (- 54)) =
      dbl (int (roundAt 45035996273704965 3)) (- 54 + int 3)"
    by (rule add64_dbl_round) simp_all
  moreover have "roundAt 45035996273704965 3 = 5629499534213121"
    by (simp add: roundAt_def Let_def)
  ultimately show ?thesis by simp
qed

lemma sum_01_02:
  "add64 (dbl 3602879701896397 (- 55)) (dbl 3602879701896397 (- 54)) = dbl 5404319552844596 (- 54)"
proof -
  have "add64 (dbl 3602879701896397 (- 54)) (dbl 3602879701896397 (- 55)) =
      dbl (int (roundAt 10808639105689191 1)) (- 55 + int 1)"
    by (rule add64_dbl_round) simp_all
  moreover have "roundAt 10808639105689191 1 = 5404319552844596"
    by (simp add: roundAt_def Let_def)
  moreover have "add64 (dbl 3602879701896397 (- 55)) (dbl 3602879701896397 (- 54)) =
      add64 (dbl 3602879701896397 (- 54)) (dbl 3602879701896397 (- 55))"
    unfolding dbl_def by (rule add64_commute)
  ultimately show ?thesis by simp
qed

lemma sum_03_22:
  "add64 (dbl 5404319552844596 (- 54)) (dbl 2476979795053773 (- 50)) = dbl 5629499534213120 (- 51)"
proof -
  have "add64 (dbl 2476979795053773 (- 50)) (dbl 5404319552844596 (- 54)) =
      dbl (int (roundAt 45035996273704964 3)) (- 54 + int 3)"
    by (rule add64_dbl_round) simp_all
  moreover have "roundAt 45035996273704964 3 = 5629499534213120"
    by (simp add: roundAt_def Let_def)
  moreover have "add64 (dbl 5404319552844596 (- 54)) (dbl 2476979795053773 (- 50)) =
      add64 (dbl 2476979795053773 (- 50)) (dbl 5404319552844596 (- 54))"
    unfolding dbl_def by (rule add64_commute)
  ultimately show ?thesis by simp
qed

lemma sum_01_22:
  "add64 (dbl 3602879701896397 (- 55)) (dbl 2476979795053773 (- 50)) = dbl 5179139571476071 (- 51)"
proof -
  have "add64 (dbl 2476979795053773 (- 50)) (dbl 3602879701896397 (- 55)) =
      dbl (int (roundAt 82866233143617133 4)) (- 55 + int 4)"
    by (rule add64_dbl_round) simp_all
  moreover have "roundAt 82866233143617133 4 = 5179139571476071"
    by (simp add: roundAt_def Let_def)
  moreover have "add64 (dbl 3602879701896397 (- 55)) (dbl 2476979795053773 (- 50)) =
      add64 (dbl 2476979795053773 (- 50)) (dbl 3602879701896397 (- 55))"
    unfolding dbl_def by (rule add64_commute)
  ultimately show ?thesis by simp
qed

lemma aggregate64_sampleSheet64:
  "aggregate64 sampleHost sampleNumber64 sampleSheet64 =
     [\<lparr>Date64 = ''2024-04-01'', SalesCount64 = 2, Revenue64 = dbl 5179139571476071 (- 51),
       Clients64 = [''A''], Month64 = ''April'', Year64 = ''2024''\<rparr>,
      \<lparr>Date64 = ''2024-04-02'', SalesCount64 = 1, Revenue64 = dbl 3602879701896397 (- 54),
       Clients64 = [''A''], Month64 = ''April'', Year64 = ''2024''\<rparr>]"
  by (simp add: aggregate64_def validRows_sampleSheet64 dailyStep64_def rows_sample
      revenue64_sample client_sample truthy_def sortBy_def Let_def sum_0_01 sum_0_02 sum_01_22)
     (simp add: sampleHost_def)

lemma totalRevenue64_sample:
  "totalRevenue64 (aggregate64 sampleHost sampleNumber64 sampleSheet64) = dbl 5629499534213121 (- 51)"
  by (simp add: aggregate64_sampleSheet64 totalRevenue64_def sum_0_23 sum_23_02)

lemma sumRevenue64_sample:
  "sumRevenue64 sampleNumber64 (validRows sampleSheet64) = dbl 5629499534213120 (- 51)"
  by (simp add: validRows_sampleSheet64 sumRevenue64_def revenue64_sample
      sum_0_01 sum_01_02 sum_03_22)

lemma dbl_neq: "dbl 5629499534213121 (- 51) \<noteq> dbl 5629499534213120 (- 51)"
  by (simp add: dbl_def)

lemma units_sample:
  "sum_list (map (\<lambda>a. units (Revenue64 a)) (aggregate64 sampleHost sampleNumber64 sampleSheet64)) =
     90071992547409930 * 2 ^ 1019"
  "sum_list (map (\<lambda>r. units (rowRevenue64 sampleNumber64 r)) (validRows sampleSheet64)) =
     90071992547409927 * 2 ^ 1019"
  by (simp_all add: aggregate64_sampleSheet64 validRows_sampleSheet64
      revenue64_sample units_def dbl_def)

subsection \<open>The example with whole numbers\<close>

lemma Number_js64_digits:
  assumes "s \<noteq> []" "list_all isDigit s" "natOfDigits s < 2 ^ 53"
  shows "Number_js64 num s = whole (int (natOfDigits s))"
proof -
  have "\<bar>int (natOfDigits s)\<bar> < 2 ^ 53" using assms(3) by simp
  then have "round64 (int (natOfDigits s) * 2 ^ 1074) = Finite (int (natOfDigits s) * 2 ^ 1074)"
    by (rule round64_whole)
  then show ?thesis using assms(1,2) by (simp only: Number_js64_def whole_def if_True simp_thms)
qed

lemma orZero64_whole: "orZero64 (whole n) = whole n"
  by (simp add: orZero64_def whole_def)

lemma add64_zero_whole: "\<bar>a\<bar> < 2 ^ 53 \<Longrightarrow> add64 (Finite 0) (whole a) = whole a"
  using add64_whole [of 0 a] by (simp add: whole_zero)

lemma digits_sample:
  "natOfDigits ''100'' = 100" "natOfDigits ''50'' = 50" "natOfDigits ''75'' = 75"
  by (simp_all add: natOfDigits_def digitVal_def)

lemma revenue64_whole_sample:
  "rowRevenue64 sampleNumber64 (sampleRow d ''100'' c) = whole 100"
  "rowRevenue64 sampleNumber64 (sampleRow d ''50'' c) = whole 50"
  "rowRevenue64 sampleNumber64 (sampleRow d ''75'' c) = whole 75"
  "rowRevenue64 sampleNumber64 (sampleRow d ''abc'' c) = whole 0"
proof -
  have "Number_js64 sampleNumber64 ''100'' = whole (int (natOfDigits ''100''))"
    by (rule Number_js64_digits) (simp_all add: isDigit_def digits_sample)
  then show "rowRevenue64 sampleNumber64 (sampleRow d ''100'' c) = whole 100"
    by (simp add: rowRevenue64_def sampleRow_def digits_sample orZero64_whole)
  have "Number_js64 sampleNumber64 ''50'' = whole (int (natOfDigits ''50''))"
    by (rule Number_js64_digits) (simp_all add: isDigit_def digits_sample)
  then show "rowRevenue64 sampleNumber64 (sampleRow d ''50'' c) = whole 50"
    by (simp add: rowRevenue64_def sampleRow_def digits_sample orZero64_whole)
  have "Number_js64 sampleNumber64 ''75'' = whole (int (natOfDigits ''75''))"
    by (rule Number_js64_digits) (simp_all add: isDigit_def digits_sample)
  then show "rowRevenue64 sampleNumber64 (sampleRow d ''75'' c) = whole 75"
    by (simp add: rowRevenue64_def sampleRow_def digits_sample orZero64_whole)
  show "rowRevenue64 sampleNumber64 (sampleRow d ''abc'' c) = whole 0"
    by (simp add: rowRevenue64_def sampleRow_def Number_js64_def isDigit_def sampleNumber64_def
        orZero64_def whole_def)
qed

lemma amount_sample:
  "sampleAmount (sampleRow d ''100'' c) = 100"
  "sampleAmount (sampleRow d ''50'' c) = 50"
  "sampleAmount (sampleRow d ''75'' c) = 75"
  "sampleAmount (sampleRow d ''abc'' c) = 0"
  by (simp_all add: sampleAmount_def sampleRow_def isDigit_def digits_sample)

lemma aggregate64_sampleSheet:
  "aggregate64 sampleHost sampleNumber64 sampleSheet =
     [\<lparr>Date64 = ''2024-04-01'', SalesCount64 = 2, Revenue64 = whole 150, Clients64 = [''A''],
       Month64 = ''April'', Year64 = ''2024''\<rparr>,
      \<lparr>Date64 = ''2024-04-02'', SalesCount64 = 1, Revenue64 = whole 75, Clients64 = [''A''],
       Month64 = ''April'', Year64 = ''2024''\<rparr>,
      \<lparr>Date64 = ''Unknown'', SalesCount64 = 1, Revenue64 = whole 0, Clients64 = [''B''],
       Month64 = ''Unknown'', Year64 = ''Unknown''\<rparr>]"
  by (simp add: aggregate64_def validRows_sampleSheet dailyStep64_def rows_sample
      revenue64_whole_sample client_sample truthy_def sortBy_def Let_def add64_zero_whole add64_whole)
     (simp add: sampleHost_def)

text \<open>The three doubles of the second example are the nearest ones to 1/10, 2/10 and 22/10.\<close>

lemma sampleNumber64_nearest:
  "sampleNumber64 ''0.1'' = dbl 7205759403792794 (- 56) \<and> \<bar>10 * 7205759403792794 - 1 * 2 ^ 56\<bar> * 2 \<le> (10::int)"
  "sampleNumber64 ''0.2'' = dbl 7205759403792794 (- 55) \<and> \<bar>10 * 7205759403792794 - 2 * 2 ^ 55\<bar> * 2 \<le> (10::int)"
  "sampleNumber64 ''2.2'' = dbl 4953959590107546 (- 51) \<and> \<bar>10 * 4953959590107546 - 22 * 2 ^ 51\<bar> * 2 \<le> (10::int)"
  by (simp_all add: sampleNumber64_def dbl_def)

section \<open>The claims about the row normalisation\<close>

text \<open>
  Claim C1 (conservation). After normalisation the \<open>SalesCount\<close> of all daily aggregates
  add up to the number of valid rows, the rows with both a date and a revenue. The
  \<open>Revenue\<close> of a daily aggregate is the sum of the parsed revenues of the valid rows of
  its date, added from 0 in the order of the rows, each addition rounding to a double.
  When the parsed revenues are whole numbers whose magnitudes add up to less than
  \<open>2 ^ 53\<close>, no addition rounds: the \<open>Revenue\<close> of all aggregates, added as \<^verbatim>\<open>totalRevenue\<close>
  adds them, and the parsed revenues of the valid rows, added in the order of the sheet,
  both are the exact sum of the parsed revenues.
\<close>

theorem conservation_binary64:
  "sum_list (map SalesCount64 (aggregate64 h num sheetData)) = length (validRows sheetData) \<and>
   (\<forall>a \<in> set (aggregate64 h num sheetData).
      Revenue64 a = sumRevenue64 num (filter (\<lambda>r. rowDate h r = Date64 a) (validRows sheetData))) \<and>
   ((\<forall>r \<in> set (validRows sheetData). rowRevenue64 num r = whole (amt r)) \<and>
    (\<Sum>r\<leftarrow>validRows sheetData. \<bar>amt r\<bar>) < 2 ^ 53 \<longrightarrow>
      totalRevenue64 (aggregate64 h num sheetData) = whole (\<Sum>r\<leftarrow>validRows sheetData. amt r) \<and>
      sumRevenue64 num (validRows sheetData) = whole (\<Sum>r\<leftarrow>validRows sheetData. amt r))"
proof (intro conjI ballI impI)
  show "sum_list (map SalesCount64 (aggregate64 h num sheetData)) = length (validRows sheetData)"
    by (rule sum_SalesCount64_aggregate)
next
  fix a assume "a \<in> set (aggregate64 h num sheetData)"
  then show "Revenue64 a = sumRevenue64 num (filter (\<lambda>r. rowDate h r = Date64 a) (validRows sheetData))"
    by (rule Revenue64_aggregate)
next
  assume "(\<forall>r \<in> set (validRows sheetData). rowRevenue64 num r = whole (amt r)) \<and>
    (\<Sum>r\<leftarrow>validRows sheetData. \<bar>amt r\<bar>) < 2 ^ 53"
  then show "totalRevenue64 (aggregate64 h num sheetData) = whole (\<Sum>r\<leftarrow>validRows sheetData. amt r)"
    by (intro totalRevenue64_whole) simp_all
next
  assume "(\<forall>r \<in> set (validRows sheetData). rowRevenue64 num r = whole (amt r)) \<and>
    (\<Sum>r\<leftarrow>validRows sheetData. \<bar>amt r\<bar>) < 2 ^ 53"
  then show "sumRevenue64 num (validRows sheetData) = whole (\<Sum>r\<leftarrow>validRows sheetData. amt r)"
    by (intro sumRevenue64_whole) simp_all
qed

theorem conservation_binary64_witness:
  "sum_list (map SalesCount64 (aggregate64 sampleHost sampleNumber64 sampleSheet)) = 4 \<and>
   \<lparr>Date64 = ''2024-04-01'', SalesCount64 = 2, Revenue64 = whole 150, Clients64 = [''A''],
     Month64 = ''April'', Year64 = ''2024''\<rparr> \<in> set (aggregate64 sampleHost sampleNumber64 sampleSheet) \<and>
   whole 150 = sumRevenue64 sampleNumber64
     [sampleRow ''2024-04-01'' ''100'' ''A'', sampleRow ''2024-04-01'' ''50'' ''A''] \<and>
   (\<Sum>r\<leftarrow>validRows sampleSheet. \<bar>sampleAmount r\<bar>) = 225 \<and>
   totalRevenue64 (aggregate64 sampleHost sampleNumber64 sampleSheet) = whole 225 \<and>
   sumRevenue64 sampleNumber64 (validRows sampleSheet) = whole 225"
proof -
  let ?a = "\<lparr>Date64 = ''2024-04-01'', SalesCount64 = 2, Revenue64 = whole 150, Clients64 = [''A''],
     Month64 = ''April'', Year64 = ''2024''\<rparr>"
  note t = conservation_binary64 [where h = sampleHost and num = sampleNumber64
      and sheetData = sampleSheet and amt = sampleAmount]
  have m: "?a \<in> set (aggregate64 sampleHost sampleNumber64 sampleSheet)"
    by (simp add: aggregate64_sampleSheet)
  have w: "\<forall>r \<in> set (validRows sampleSheet). rowRevenue64 sampleNumber64 r = whole (sampleAmount r)"
    by (simp add: validRows_sampleSheet revenue64_whole_sample amount_sample)
  have s: "(\<Sum>r\<leftarrow>validRows sampleSheet. \<bar>sampleAmount r\<bar>) = 225"
          "(\<Sum>r\<leftarrow>validRows sampleSheet. sampleAmount r) = 225"
    by (simp_all add: validRows_sampleSheet amount_sample)
  from t have "sum_list (map SalesCount64 (aggregate64 sampleHost sampleNumber64 sampleSheet)) =
      length (validRows sampleSheet)"
    by (rule conjunct1)
  then have c: "sum_list (map SalesCount64 (aggregate64 sampleHost sampleNumber64 sampleSheet)) = 4"
    by (simp add: validRows_sampleSheet)
  from t have "\<forall>a \<in> set (aggregate64 sampleHost sampleNumber64 sampleSheet).
      Revenue64 a = sumRevenue64 sampleNumber64
        (filter (\<lambda>r. rowDate sampleHost r = Date64 a) (validRows sampleSheet))"
    by (rule conjunct1 [OF conjunct2])
  from bspec [OF this m]
  have b: "whole 150 = sumRevenue64 sampleNumber64
     [sampleRow ''2024-04-01'' ''100'' ''A'', sampleRow ''2024-04-01'' ''50'' ''A'']"
    by (simp add: validRows_sampleSheet rows_sample)
  from t have "(\<forall>r \<in> set (validRows sampleSheet). rowRevenue64 sampleNumber64 r = whole (sampleAmount r)) \<and>
    (\<Sum>r\<leftarrow>validRows sampleSheet. \<bar>sampleAmount r\<bar>) < 2 ^ 53 \<longrightarrow>
      totalRevenue64 (aggregate64 sampleHost sampleNumber64 sampleSheet) =
        whole (\<Sum>r\<leftarrow>validRows sampleSheet. sampleAmount r) \<and>
      sumRevenue64 sampleNumber64 (validRows sampleSheet) = whole (\<Sum>r\<leftarrow>validRows sampleSheet. sampleAmount r)"
    by (rule conjunct2 [OF conjunct2])
  moreover have "(\<Sum>r\<leftarrow>validRows sampleSheet. \<bar>sampleAmount r\<bar>) < 2 ^ 53"
    by (simp only: s) simp
  ultimately have "totalRevenue64 (aggregate64 sampleHost sampleNumber64 sampleSheet) =
        whole (\<Sum>r\<leftarrow>validRows sampleSheet. sampleAmount r) \<and>
      sumRevenue64 sampleNumber64 (validRows sampleSheet) = whole (\<Sum>r\<leftarrow>validRows sampleSheet. sampleAmount r)"
    using w by blast
  then have d: "totalRevenue64 (aggregate64 sampleHost sampleNumber64 sampleSheet) = whole 225"
    "sumRevenue64 sampleNumber64 (validRows sampleSheet) = whole 225"
    by (simp_all only: s)
  from c m b s(1) d show ?thesis by (intro conjI)
qed

text \<open>
  With fractions the two sums differ. For the rows 0.1 and 2.2 of one date and 0.2 of
  another, the aggregates add up to 2.5000000000000004 and the rows, in the order of the
  sheet, to 2.5. The exact sums of the same doubles differ as well: the aggregate of the
  first date holds 0.1 + 2.2 rounded.
\<close>

theorem revenue_sum_counterexample:
  "totalRevenue64 (aggregate64 sampleHost sampleNumber64 sampleSheet64) = dbl 5629499534213121 (- 51) \<and>
   sumRevenue64 sampleNumber64 (validRows sampleSheet64) = dbl 5629499534213120 (- 51) \<and>
   dbl 5629499534213121 (- 51) \<noteq> dbl 5629499534213120 (- 51) \<and>
   sum_list (map (\<lambda>a. units (Revenue64 a)) (aggregate64 sampleHost sampleNumber64 sampleSheet64)) =
     90071992547409930 * 2 ^ 1019 \<and>
   sum_list (map (\<lambda>r. units (rowRevenue64 sampleNumber64 r)) (validRows sampleSheet64)) =
     90071992547409927 * 2 ^ 1019"
  using totalRevenue64_sample sumRevenue64_sample dbl_neq units_sample by (intro conjI)

text \<open>
  Claim C4 (revenue coercion and discarded rows). A revenue that is not a number, or is
  absent, contributes 0; a row with such a revenue string does not stop the batch: it is
  counted as one sale and adds nothing to the revenue. A row lacking a date or a revenue
  is discarded before the aggregation: the aggregates and the totals per person are
  those of the sheet without it, so a row without revenue is not a sale of revenue 0.
\<close>

theorem revenue_coercion_and_discard:
  "(Number_js h s = None \<longrightarrow> rowRevenue h (r\<lparr>rRevenue := Some s\<rparr>) = 0) \<and>
   rowRevenue h (r\<lparr>rRevenue := None\<rparr>) = 0 \<and>
   (Number_js h s = None \<and> s \<noteq> [] \<and> truthy (rDate r) \<longrightarrow>
      sum_list (map SalesCount (data (fetchData h (xs @ [r\<lparr>rRevenue := Some s\<rparr>]) st))) =
        sum_list (map SalesCount (data (fetchData h xs st))) + 1 \<and>
      sum_list (map Revenue (data (fetchData h (xs @ [r\<lparr>rRevenue := Some s\<rparr>]) st))) =
        sum_list (map Revenue (data (fetchData h xs st)))) \<and>
   (\<not> truthy (rDate r) \<or> \<not> truthy (rRevenue r) \<longrightarrow>
      data (fetchData h (xs @ r # ys) st) = data (fetchData h (xs @ ys) st) \<and>
      salesByPerson (fetchData h (xs @ r # ys) st) = salesByPerson (fetchData h (xs @ ys) st))"
proof (intro conjI impI)
  assume "Number_js h s = None"
  then show "rowRevenue h (r\<lparr>rRevenue := Some s\<rparr>) = 0"
    by (simp add: rowRevenue_def orZero_def)
next
  show "rowRevenue h (r\<lparr>rRevenue := None\<rparr>) = 0"
    by (simp add: rowRevenue_def orZero_def)
next
  assume a: "Number_js h s = None \<and> s \<noteq> [] \<and> truthy (rDate r)"
  then have v: "validRow (r\<lparr>rRevenue := Some s\<rparr>)" by (simp add: validRow_def truthy_def)
  show "sum_list (map SalesCount (data (fetchData h (xs @ [r\<lparr>rRevenue := Some s\<rparr>]) st))) =
        sum_list (map SalesCount (data (fetchData h xs st))) + 1"
    by (simp add: data_fetchData sum_SalesCount_aggregate validRows_snoc [OF v])
  show "sum_list (map Revenue (data (fetchData h (xs @ [r\<lparr>rRevenue := Some s\<rparr>]) st))) =
        sum_list (map Revenue (data (fetchData h xs st)))"
    using a by (simp add: data_fetchData sum_Revenue_aggregate validRows_snoc [OF v] rowRevenue_def orZero_def)
next
  assume "\<not> truthy (rDate r) \<or> \<not> truthy (rRevenue r)"
  then have n: "\<not> validRow r" by (auto simp: validRow_def)
  show "data (fetchData h (xs @ r # ys) st) = data (fetchData h (xs @ ys) st)"
    by (simp add: data_fetchData aggregate_drop [OF n])
  show "salesByPerson (fetchData h (xs @ r # ys) st) = salesByPerson (fetchData h (xs @ ys) st)"
    by (simp add: fetchData_def Let_def personArray_drop [OF n])
qed

theorem revenue_coercion_and_discard_witness:
  "Number_js sampleHost ''abc'' = None \<and>
   rowRevenue sampleHost (sampleRow ''n/a'' ''abc'' ''B'') = 0 \<and>
   sum_list (map SalesCount (data (fetchData sampleHost
       (take 3 sampleSheet @ [sampleRow ''n/a'' ''abc'' ''B'']) initialState))) =
     sum_list (map SalesCount (data (fetchData sampleHost (take 3 sampleSheet) initialState))) + 1 \<and>
   sum_list (map Revenue (data (fetchData sampleHost
       (take 3 sampleSheet @ [sampleRow ''n/a'' ''abc'' ''B'']) initialState))) =
     sum_list (map Revenue (data (fetchData sampleHost (take 3 sampleSheet) initialState))) \<and>
   \<not> truthy (rRevenue ((sampleRow ''n/a'' ''abc'' ''B'')\<lparr>rRevenue := None\<rparr>)) \<and>
   data (fetchData sampleHost
       (take 3 sampleSheet @ (sampleRow ''n/a'' ''abc'' ''B'')\<lparr>rRevenue := None\<rparr> # []) initialState) =
     data (fetchData sampleHost (take 3 sampleSheet @ []) initialState)"
proof -
  have n: "Number_js sampleHost ''abc'' = None"
    by (simp add: Number_js_def isDigit_def sampleHost_def)
  have t: "truthy (rDate ((sampleRow ''n/a'' ''abc'' ''B'')\<lparr>rRevenue := None\<rparr>))"
          "\<not> truthy (rRevenue ((sampleRow ''n/a'' ''abc'' ''B'')\<lparr>rRevenue := None\<rparr>))"
    by (simp_all add: truthy_def sampleRow_def)
  have u: "(sampleRow ''n/a'' ''abc'' ''B'')\<lparr>rRevenue := None, rRevenue := Some ''abc''\<rparr> =
           sampleRow ''n/a'' ''abc'' ''B''"
    by (simp add: sampleRow_def)
  show ?thesis
    using n t u
      revenue_coercion_and_discard [where h = sampleHost and s = "''abc''"
        and r = "(sampleRow ''n/a'' ''abc'' ''B'')\<lparr>rRevenue := None\<rparr>"
        and xs = "take 3 sampleSheet" and ys = "[]" and st = initialState]
    by simp
qed

text \<open>
  Claim C6 (clients without repetition). The \<open>Clients\<close> list of every daily aggregate
  has no repeated entry, and there is one aggregate per date; the client of every valid
  row is in the list of the aggregate of that row's date, so one client name appears
  under each date it has a row for.
\<close>

theorem dedup:
  "(\<forall>a \<in> set (data (fetchData h sheetData st)). distinct (Clients a)) \<and>
   distinct (map Date (data (fetchData h sheetData st))) \<and>
   (\<forall>r \<in> set (validRows sheetData). truthy (rClient r) \<longrightarrow>
      (\<exists>a \<in> set (data (fetchData h sheetData st)).
         Date a = rowDate h r \<and> the (rClient r) \<in> set (Clients a)))"
proof (intro conjI ballI impI)
  fix a assume "a \<in> set (data (fetchData h sheetData st))"
  then show "distinct (Clients a)"
    by (auto simp: data_fetchData dest: aggregate_entryOk simp: entryOk_def)
next
  show "distinct (map Date (data (fetchData h sheetData st)))"
    by (simp add: data_fetchData distinct_Date_aggregate)
next
  fix r assume r: "r \<in> set (validRows sheetData)" "truthy (rClient r)"
  from client_recorded_fold [OF this, of h] obtain e where
    e: "map_of (foldl (dailyStep h) [] (validRows sheetData)) (rowDate h r) = Some e"
       "the (rClient r) \<in> set (Clients e)" by blast
  then have "e \<in> set (aggregate h sheetData)" by (auto simp: set_aggregate)
  moreover have "Date e = rowDate h r" using e(1) by (auto dest: entryOk_fold simp: entryOk_def)
  ultimately show "\<exists>a \<in> set (data (fetchData h sheetData st)).
         Date a = rowDate h r \<and> the (rClient r) \<in> set (Clients a)"
    using e(2) by (auto simp: data_fetchData)
qed

theorem dedup_witness:
  "\<lparr>Date = ''2024-04-01'', SalesCount = 2, Revenue = 150, Clients = [''A''],
     Month = ''April'', Year = ''2024''\<rparr> \<in> set (data (fetchData sampleHost sampleSheet initialState)) \<and>
   distinct [''A''] \<and>
   sampleRow ''2024-04-02'' ''75'' ''A'' \<in> set (validRows sampleSheet) \<and>
   truthy (rClient (sampleRow ''2024-04-02'' ''75'' ''A'')) \<and>
   (\<exists>a \<in> set (data (fetchData sampleHost sampleSheet initialState)).
      Date a = ''2024-04-02'' \<and> ''A'' \<in> set (Clients a))"
proof -
  have d: "data (fetchData sampleHost sampleSheet initialState) = aggregate sampleHost sampleSheet"
    by (rule data_fetchData)
  have r: "sampleRow ''2024-04-02'' ''75'' ''A'' \<in> set (validRows sampleSheet)"
    by (simp add: validRows_sampleSheet)
  have t: "truthy (rClient (sampleRow ''2024-04-02'' ''75'' ''A''))"
    by (simp add: client_sample truthy_def)
  from dedup [of sampleHost sampleSheet initialState] r t
  have "\<exists>a \<in> set (data (fetchData sampleHost sampleSheet initialState)).
      Date a = rowDate sampleHost (sampleRow ''2024-04-02'' ''75'' ''A'') \<and>
      the (rClient (sampleRow ''2024-04-02'' ''75'' ''A'')) \<in> set (Clients a)"
    by blast
  then show ?thesis using r t
    by (simp add: d aggregate_sampleSheet rows_sample client_sample)
qed

text \<open>
  Claim C9 (which rows are valid). The rows kept are exactly those whose \<open>Date\<close> and
  \<open>Revenue\<close> are both present and not the empty string. A row with a date and the revenue
  \<^verbatim>\<open>"0"\<close> is kept: it is counted as one sale and contributes revenue 0. A row whose
  revenue is the empty string is dropped, exactly as a row whose revenue is absent.
\<close>

theorem valid_row_truthiness:
  "validRows sheetData =
     filter (\<lambda>r. \<exists>d v. rDate r = Some d \<and> d \<noteq> [] \<and> rRevenue r = Some v \<and> v \<noteq> []) sheetData \<and>
   validRow (r\<lparr>rDate := Some (c # cs), rRevenue := Some ''0''\<rparr>) \<and>
   rowRevenue h (r\<lparr>rDate := Some (c # cs), rRevenue := Some ''0''\<rparr>) = 0 \<and>
   sum_list (map SalesCount (data (fetchData h (xs @ [r\<lparr>rDate := Some (c # cs), rRevenue := Some ''0''\<rparr>]) st))) =
     sum_list (map SalesCount (data (fetchData h xs st))) + 1 \<and>
   sum_list (map Revenue (data (fetchData h (xs @ [r\<lparr>rDate := Some (c # cs), rRevenue := Some ''0''\<rparr>]) st))) =
     sum_list (map Revenue (data (fetchData h xs st))) \<and>
   \<not> validRow (r\<lparr>rRevenue := Some ''''\<rparr>) \<and>
   data (fetchData h (xs @ r\<lparr>rRevenue := Some ''''\<rparr> # ys) st) = data (fetchData h (xs @ ys) st) \<and>
   data (fetchData h (xs @ r\<lparr>rRevenue := None\<rparr> # ys) st) = data (fetchData h (xs @ ys) st)"
proof -
  let ?z = "r\<lparr>rDate := Some (c # cs), rRevenue := Some ''0''\<rparr>"
  have v: "validRow ?z" by (simp add: validRow_def truthy_def)
  have z: "rowRevenue h ?z = 0" by (simp add: rowRevenue_def orZero_def Number_js_zero)
  have e: "\<not> validRow (r\<lparr>rRevenue := Some ''''\<rparr>)" by (simp add: validRow_def truthy_def)
  have n: "\<not> validRow (r\<lparr>rRevenue := None\<rparr>)" by (simp add: validRow_def truthy_def)
  have "validRows sheetData =
     filter (\<lambda>r. \<exists>d v. rDate r = Some d \<and> d \<noteq> [] \<and> rRevenue r = Some v \<and> v \<noteq> []) sheetData"
    unfolding validRows_def by (rule filter_cong [OF refl]) (simp add: validRow_iff)
  moreover have "sum_list (map SalesCount (data (fetchData h (xs @ [?z]) st))) =
     sum_list (map SalesCount (data (fetchData h xs st))) + 1"
    by (simp add: data_fetchData sum_SalesCount_aggregate validRows_snoc [OF v])
  moreover have "sum_list (map Revenue (data (fetchData h (xs @ [?z]) st))) =
     sum_list (map Revenue (data (fetchData h xs st)))"
    using z by (simp add: data_fetchData sum_Revenue_aggregate validRows_snoc [OF v])
  moreover have "data (fetchData h (xs @ r\<lparr>rRevenue := Some ''''\<rparr> # ys) st) = data (fetchData h (xs @ ys) st)"
    by (simp add: data_fetchData aggregate_drop [OF e])
  moreover have "data (fetchData h (xs @ r\<lparr>rRevenue := None\<rparr> # ys) st) = data (fetchData h (xs @ ys) st)"
    by (simp add: data_fetchData aggregate_drop [OF n])
  ultimately show ?thesis using v z e by blast
qed

theorem valid_row_truthiness_witness:
  "validRows sampleSheet =
     filter (\<lambda>r. \<exists>d v. rDate r = Some d \<and> d \<noteq> [] \<and> rRevenue r = Some v \<and> v \<noteq> []) sampleSheet \<and>
   validRow (sampleRow ''2024-04-01'' ''0'' ''A'') \<and>
   rowRevenue sampleHost (sampleRow ''2024-04-01'' ''0'' ''A'') = 0 \<and>
   \<not> validRow (sampleRow ''2024-04-01'' [] ''A'')"
proof -
  have u: "(sampleRow ''2024-04-01'' [] ''A'')\<lparr>rDate := Some ''2024-04-01'', rRevenue := Some ''0''\<rparr> =
           sampleRow ''2024-04-01'' ''0'' ''A''"
          "(sampleRow ''2024-04-01'' [] ''A'')\<lparr>rRevenue := Some []\<rparr> = sampleRow ''2024-04-01'' [] ''A''"
    by (simp_all add: sampleRow_def)
  show ?thesis
    using u valid_row_truthiness [where sheetData = sampleSheet and h = sampleHost
        and r = "sampleRow ''2024-04-01'' [] ''A''" and c = "CHR ''2''" and cs = "''024-04-01''"
        and xs = "[]" and ys = "[]" and st = initialState]
    by simp
qed

text \<open>
  Claim C10 (month and year agree with the date). In every daily aggregate either
  \<open>Date\<close>, \<open>Month\<close> and \<open>Year\<close> are all the string \<^verbatim>\<open>Unknown\<close>, or there is one valid date
  of which \<open>Date\<close> is the \<^verbatim>\<open>YYYY-MM-DD\<close> form, \<open>Month\<close> the full month name and \<open>Year\<close>
  the \<^verbatim>\<open>YYYY\<close> form, four digits long for the years 0 to 9999. This holds for every
  sheet, whatever the number and the order of the rows of a date.
\<close>

theorem month_year_consistent:
  "\<forall>a \<in> set (data (fetchData h sheetData st)).
     (Date a = ''Unknown'' \<and> Month a = ''Unknown'' \<and> Year a = ''Unknown'') \<or>
     (\<exists>c. Date a = format (Valid c) YYYY_MM_DD \<and> Month a = format (Valid c) MMMM \<and>
          Year a = format (Valid c) YYYY \<and> Month a \<in> set monthNames \<and>
          (0 \<le> year_of c \<and> year_of c \<le> 9999 \<longrightarrow> length (Year a) = 4))"
proof
  fix a assume "a \<in> set (data (fetchData h sheetData st))"
  then have "entryOk h (validRows sheetData) (Date a) a"
    by (simp add: data_fetchData aggregate_entryOk)
  then obtain r where r: "Date a = rowDate h r" "Month a = rowMonth h r" "Year a = rowYear h r"
    by (auto simp: entryOk_def)
  show "(Date a = ''Unknown'' \<and> Month a = ''Unknown'' \<and> Year a = ''Unknown'') \<or>
     (\<exists>c. Date a = format (Valid c) YYYY_MM_DD \<and> Month a = format (Valid c) MMMM \<and>
          Year a = format (Valid c) YYYY \<and> Month a \<in> set monthNames \<and>
          (0 \<le> year_of c \<and> year_of c \<le> 9999 \<longrightarrow> length (Year a) = 4))"
  proof (cases "dayjs h (the (rDate r))")
    case InvalidDate
    then show ?thesis using r by (simp add: rowDate_def rowMonth_def rowYear_def isValid_def)
  next
    case (Valid c)
    have "Date a = format (Valid c) YYYY_MM_DD" "Month a = format (Valid c) MMMM"
         "Year a = format (Valid c) YYYY"
      using r Valid by (simp_all add: rowDate_def rowMonth_def rowYear_def isValid_def)
    moreover have "format (Valid c) MMMM \<in> set monthNames" by (simp add: format_def fmt_MMMM_in)
    moreover have "0 \<le> year_of c \<and> year_of c \<le> 9999 \<longrightarrow> length (format (Valid c) YYYY) = 4"
      by (simp add: format_def length_fmt_YYYY)
    ultimately show ?thesis by auto
  qed
qed

theorem month_year_consistent_witness:
  "\<lparr>Date = ''2024-04-01'', SalesCount = 2, Revenue = 150, Clients = [''A''],
     Month = ''April'', Year = ''2024''\<rparr> \<in> set (data (fetchData sampleHost sampleSheet initialState)) \<and>
   (\<exists>c. ''2024-04-01'' = format (Valid c) YYYY_MM_DD \<and> ''April'' = format (Valid c) MMMM \<and>
        ''2024'' = format (Valid c) YYYY)"
proof -
  let ?a = "\<lparr>Date = ''2024-04-01'', SalesCount = 2, Revenue = 150, Clients = [''A''],
     Month = ''April'', Year = ''2024''\<rparr>"
  have m: "?a \<in> set (data (fetchData sampleHost sampleSheet initialState))"
    by (simp add: data_fetchData aggregate_sampleSheet)
  from month_year_consistent [of sampleHost sampleSheet initialState] m
  have "(Date ?a = ''Unknown'' \<and> Month ?a = ''Unknown'' \<and> Year ?a = ''Unknown'') \<or>
     (\<exists>c. Date ?a = format (Valid c) YYYY_MM_DD \<and> Month ?a = format (Valid c) MMMM \<and>
          Year ?a = format (Valid c) YYYY \<and> Month ?a \<in> set monthNames \<and>
          (0 \<le> year_of c \<and> year_of c \<le> 9999 \<longrightarrow> length (Year ?a) = 4))"
    by (rule bspec)
  then show ?thesis using m by auto
qed

section \<open>The claims about the filter effect\<close>

text \<open>
  Claim C3 (weekly mode). With a month and a week selected, the weekly mode keeps the
  aggregates whose date lies in the week, from its start to its end; with no month or no
  week selected it keeps the aggregates of the seven days that end now, and a month
  selected without a week does not restrict them to the month. The branch without a week
  stands under the comment \<^verbatim>\<open>Default weekly\<close> \<open>\<rightarrow>\<close> \<^verbatim>\<open>last 7 days\<close>, and its only test is
  \<^verbatim>\<open>isAfter(now.subtract(7, 'day'))\<close>. On 10 April 2024 at noon the aggregate of 20 April
  2024, ten days after now, is kept, with no month selected and with April 2024 selected.
\<close>

theorem weekly_default_keeps_future:
  "isAfter (dayjs sampleHost ''2024-04-20'') sampleNow \<and>
   applyFilters sampleHost sampleNow Weekly ''all'' None [sampleAggregate ''2024-04-20'' ''April'' ''2024''] =
     [sampleAggregate ''2024-04-20'' ''April'' ''2024''] \<and>
   applyFilters sampleHost sampleNow Weekly ''April 2024'' None [sampleAggregate ''2024-04-20'' ''April'' ''2024''] =
     [sampleAggregate ''2024-04-20'' ''April'' ''2024'']"
proof -
  have "isAfter (dayjs sampleHost ''2024-04-20'') sampleNow"
    by (simp add: isAfter_def js_lt_def valueOf_def dayjs_april timeOf_april sampleNow_def)
  moreover have "applyFilters sampleHost sampleNow Weekly m None
      [sampleAggregate ''2024-04-20'' ''April'' ''2024''] = [sampleAggregate ''2024-04-20'' ''April'' ''2024'']" for m
    by (simp add: applyFilters_def modeFilter_def isAfter_laterThan laterThan_def subtract_sampleNow
        sampleAggregate_def dayjs_april timeOf_april)
  ultimately show ?thesis by simp
qed

text \<open>
  The two branches, for every input: \<open>applyFilters_weekly_default\<close> is the branch without a
  week, which has the lower bound only, and \<open>weekly_without_week\<close> the page after a month
  was selected and the weekly mode clicked. \<open>applyFilters_weekly_week\<close> is the branch of a
  selected week: of the aggregates with a date it keeps those in the week (by calendar
  day for a week of the picker, \<open>picked_week_days\<close>). The aggregate of the rows whose date
  did not parse passes both tests of that branch, since a comparison with an invalid date
  is false; the other branches drop it.
\<close>

lemma unknown_bucket_in_week:
  "applyFilters sampleHost sampleNow Weekly ''April 2024'' (Some sampleWeek)
     [sampleAggregate ''Unknown'' ''Unknown'' ''Unknown''] = [sampleAggregate ''Unknown'' ''Unknown'' ''Unknown'']"
  by (simp add: applyFilters_def modeFilter_def isAfter_def isBefore_def js_lt_def valueOf_def
      sampleAggregate_def dayjs_april sampleWeek_def Let_def)

lemma weekly_sampleData:
  "applyFilters sampleHost sampleNow Weekly ''April 2024'' None sampleData =
     [sampleAggregate ''2024-04-08'' ''April'' ''2024'', sampleAggregate ''2024-04-13'' ''April'' ''2024'',
      sampleAggregate ''2024-04-20'' ''April'' ''2024'']"
  "applyFilters sampleHost sampleNow Weekly ''April 2024'' (Some sampleWeek) sampleData =
     [sampleAggregate ''2024-04-08'' ''April'' ''2024'', sampleAggregate ''2024-04-13'' ''April'' ''2024'',
      sampleAggregate ''Unknown'' ''Unknown'' ''Unknown'']"
proof -
  show "applyFilters sampleHost sampleNow Weekly ''April 2024'' None sampleData =
     [sampleAggregate ''2024-04-08'' ''April'' ''2024'', sampleAggregate ''2024-04-13'' ''April'' ''2024'',
      sampleAggregate ''2024-04-20'' ''April'' ''2024'']"
    by (simp add: applyFilters_weekly_default laterThan_sample)
  have s: "dayjs sampleHost (wr_start sampleWeek) = Valid \<lparr>year_of = 2024, month_of = 3, date_of = 7, ms_of = 0\<rparr>"
          "dayjs sampleHost (wr_end sampleWeek) = Valid \<lparr>year_of = 2024, month_of = 3, date_of = 13, ms_of = 0\<rparr>"
    by (simp_all add: sampleWeek_def dayjs_april)
  have "applyFilters sampleHost sampleNow Weekly ''April 2024'' (Some sampleWeek) sampleData =
      filter (\<lambda>item. \<not> hasDate sampleHost item \<or>
        inWeek sampleHost \<lparr>year_of = 2024, month_of = 3, date_of = 7, ms_of = 0\<rparr>
          \<lparr>year_of = 2024, month_of = 3, date_of = 13, ms_of = 0\<rparr> item) sampleData"
    by (rule applyFilters_weekly_week [OF _ s]) simp
  also have "\<dots> = [sampleAggregate ''2024-04-08'' ''April'' ''2024'', sampleAggregate ''2024-04-13'' ''April'' ''2024'',
      sampleAggregate ''Unknown'' ''Unknown'' ''Unknown'']"
    by (simp add: sampleData_def hasDate_def isValid_def inWeek_def sampleAggregate_def dayjs_april
        timeOf_april)
  finally show "applyFilters sampleHost sampleNow Weekly ''April 2024'' (Some sampleWeek) sampleData =
     [sampleAggregate ''2024-04-08'' ''April'' ''2024'', sampleAggregate ''2024-04-13'' ''April'' ''2024'',
      sampleAggregate ''Unknown'' ''Unknown'' ''Unknown'']" .
qed

text \<open>
  Claim C7 (no filter). With the mode \<^verbatim>\<open>all\<close> and the month \<^verbatim>\<open>all\<close> the filters return
  the list of aggregates as it is, and the effect makes \<open>filteredData\<close> equal to the data.
\<close>

theorem all_filter_identity:
  "applyFilters h now AllData ''all'' w rows = rows \<and>
   filteredData (filterEffect h now
      (st\<lparr>data := rows, filteredData := rows, filter_st := AllData, selectedMonth := ''all''\<rparr>)) = rows"
  by (simp add: filterEffect_def applyFilters_all)

theorem all_filter_identity_witness:
  "applyFilters sampleHost sampleNow AllData ''all'' None sampleData = sampleData"
  using all_filter_identity [of sampleHost sampleNow None sampleData initialState] by simp

text \<open>
  Claim C8 (revenue by person ignores the filters). For one fetched sheet the series of
  the chart by person is the same under any two filter states, whenever the effect runs:
  it is the list of totals per person that \<^verbatim>\<open>fetchData\<close> built from all valid rows.
\<close>

theorem person_series_unfiltered:
  "personSeries (filterEffect h now1 (setFilterState f1 m1 w1 y1 c1 (fetchData h sheetData st))) =
     personSeries (filterEffect h now2 (setFilterState f2 m2 w2 y2 c2 (fetchData h sheetData st))) \<and>
   personSeries (filterEffect h now1 (setFilterState f1 m1 w1 y1 c1 (fetchData h sheetData st))) =
     personArray h sheetData \<and>
   personSeries (filterEffect h now1 (fetchData h sheetData (setFilterState f1 m1 w1 y1 c1 st))) =
     personArray h sheetData"
  by (simp add: personSeries_def salesByPerson_filterEffect salesByPerson_setFilterState
      salesByPerson_fetchData)

theorem person_series_unfiltered_witness:
  "personSeries (filterEffect sampleHost sampleNow
      (setFilterState Weekly ''April 2024'' (Some sampleWeek) ''2024'' PersonChart
         (fetchData sampleHost sampleSheet initialState))) =
     personSeries (filterEffect sampleHost sampleNow
      (setFilterState AllData ''all'' None ''all'' SalesChart
         (fetchData sampleHost sampleSheet initialState))) \<and>
   personSeries (filterEffect sampleHost sampleNow
      (setFilterState Weekly ''April 2024'' (Some sampleWeek) ''2024'' PersonChart
         (fetchData sampleHost sampleSheet initialState))) =
     [\<lparr>name = ''Unknown'', revenue = 225\<rparr>]"
proof -
  note t = person_series_unfiltered [where h = sampleHost and sheetData = sampleSheet
      and ?now1.0 = sampleNow and ?f1.0 = Weekly and ?m1.0 = "''April 2024''" and ?w1.0 = "Some sampleWeek"
      and ?y1.0 = "''2024''" and ?c1.0 = PersonChart and st = initialState
      and ?now2.0 = sampleNow and ?f2.0 = AllData and ?m2.0 = "''all''" and ?w2.0 = None
      and ?y2.0 = "''all''" and ?c2.0 = SalesChart]
  from t have "personSeries (filterEffect sampleHost sampleNow
      (setFilterState Weekly ''April 2024'' (Some sampleWeek) ''2024'' PersonChart
         (fetchData sampleHost sampleSheet initialState))) =
     personSeries (filterEffect sampleHost sampleNow
      (setFilterState AllData ''all'' None ''all'' SalesChart
         (fetchData sampleHost sampleSheet initialState)))"
    by (rule conjunct1)
  moreover from t have "personSeries (filterEffect sampleHost sampleNow
      (setFilterState Weekly ''April 2024'' (Some sampleWeek) ''2024'' PersonChart
         (fetchData sampleHost sampleSheet initialState))) = personArray sampleHost sampleSheet"
    by (rule conjunct1 [OF conjunct2])
  then have "personSeries (filterEffect sampleHost sampleNow
      (setFilterState Weekly ''April 2024'' (Some sampleWeek) ''2024'' PersonChart
         (fetchData sampleHost sampleSheet initialState))) = [\<lparr>name = ''Unknown'', revenue = 225\<rparr>]"
    by (simp only: personArray_sampleSheet)
  ultimately show ?thesis by (rule conjI)
qed

section \<open>The claims about the weeks of a month\<close>

text \<open>
  Claim C2 (the weeks cover the month). For every month string whose first day the host
  parses, the loop returns, with at least one range; the ranges are the formatted pairs
  of a first and a last day of that month, the days of the ranges put one after the
  other are the days from 1 to the last day of the month, each once and in order, and
  every range lies between the first and the last day of the month. The year of the
  first day is outside 0 to 99, as \<open>monthStart_year\<close> shows it to be.
\<close>

theorem week_coverage:
  "monthStart h monthYear = Valid c \<Longrightarrow> year_of c < 0 \<or> 99 < year_of c \<Longrightarrow>
   \<exists>ds. getWeeksOfMonth h monthYear = Some (map (rangeOf (year_of c) (month_of c)) ds) \<and>
        ds \<noteq> [] \<and>
        concat (map daysOf ds) = [1..<Suc (daysInMonth (year_of c) (month_of c))] \<and>
        (\<forall>p \<in> set ds. 1 \<le> fst p \<and> fst p \<le> snd p \<and> snd p \<le> daysInMonth (year_of c) (month_of c))"
proof -
  assume ms: "monthStart h monthYear = Valid c" and yr: "year_of c < 0 \<or> 99 < year_of c"
  let ?y = "year_of c" and ?m = "month_of c"
  let ?ds = "monthRanges ?y ?m 1"
  have n: "1 \<le> daysInMonth ?y ?m" using daysInMonth_bounds(1) [of ?y ?m] by simp
  have "getWeeksOfMonth h monthYear = Some (map (rangeOf ?y ?m) ?ds)"
    by (rule getWeeksOfMonth_ranges [OF ms yr])
  moreover have "?ds \<noteq> []" using ranges_first [OF _ n] by simp
  moreover have "concat (map daysOf ?ds) = [1..<Suc (daysInMonth ?y ?m)]"
    by (rule ranges_days) simp_all
  moreover have "\<forall>p \<in> set ?ds. 1 \<le> fst p \<and> fst p \<le> snd p \<and> snd p \<le> daysInMonth ?y ?m"
    using ranges_bounds [of _ ?y ?m 1] by blast
  ultimately show ?thesis by blast
qed

theorem week_coverage_witness:
  "monthStart sampleHost ''April 2024'' = Valid \<lparr>year_of = 2024, month_of = 3, date_of = 1, ms_of = 0\<rparr> \<and>
   (\<exists>ds. getWeeksOfMonth sampleHost ''April 2024'' = Some (map (rangeOf 2024 3) ds) \<and> ds \<noteq> [] \<and>
         concat (map daysOf ds) = [1..<31])"
proof -
  have "year_of \<lparr>year_of = 2024, month_of = 3, date_of = 1, ms_of = 0\<rparr> < 0 \<or>
      99 < year_of \<lparr>year_of = 2024, month_of = 3, date_of = 1, ms_of = 0\<rparr>" by simp
  from week_coverage [OF monthStart_april this] obtain ds where
    "getWeeksOfMonth sampleHost ''April 2024'' = Some (map (rangeOf 2024 3) ds)" "ds \<noteq> []"
    "concat (map daysOf ds) = [1..<Suc (daysInMonth 2024 3)]"
    by auto
  moreover have "Suc (daysInMonth 2024 3) = 31" by (simp add: daysInMonth_def)
  ultimately show ?thesis using monthStart_april by (simp only:) blast
qed

text \<open>
  Claim C5 (the length of the weeks), as the code has it. For every such month string
  the first range starts on day 1 and the last range ends on the last day of the month;
  no range has more than 7 days, and every range that is neither the first nor the last
  has exactly 7 days. The first range ends on the first Saturday and may be shorter, as
  the last one may.
\<close>

theorem week_spans:
  "monthStart h monthYear = Valid c \<Longrightarrow> year_of c < 0 \<or> 99 < year_of c \<Longrightarrow>
   \<exists>ds. getWeeksOfMonth h monthYear = Some (map (rangeOf (year_of c) (month_of c)) ds) \<and>
        ds \<noteq> [] \<and> fst (hd ds) = 1 \<and> snd (last ds) = daysInMonth (year_of c) (month_of c) \<and>
        (\<forall>p \<in> set ds. spanOf p \<le> 7) \<and> (\<forall>p \<in> set (butlast (tl ds)). spanOf p = 7)"
proof -
  assume ms: "monthStart h monthYear = Valid c" and yr: "year_of c < 0 \<or> 99 < year_of c"
  let ?y = "year_of c" and ?m = "month_of c"
  let ?ds = "monthRanges ?y ?m 1"
  have n: "1 \<le> daysInMonth ?y ?m" using daysInMonth_bounds(1) [of ?y ?m] by simp
  have "getWeeksOfMonth h monthYear = Some (map (rangeOf ?y ?m) ?ds)"
    by (rule getWeeksOfMonth_ranges [OF ms yr])
  moreover have "?ds \<noteq> []" "fst (hd ?ds) = 1" using ranges_first [OF _ n] by simp_all
  moreover have "snd (last ?ds) = daysInMonth ?y ?m" using ranges_last [OF _ n] by simp
  moreover have "\<forall>p \<in> set ?ds. spanOf p \<le> 7" using ranges_bounds [of _ ?y ?m 1] by blast
  moreover have "\<forall>p \<in> set (butlast (tl ?ds)). spanOf p = 7" using middle_spans by blast
  ultimately show ?thesis by blast
qed

theorem week_spans_witness:
  "monthStart sampleHost ''May 2024'' = Valid \<lparr>year_of = 2024, month_of = 4, date_of = 1, ms_of = 0\<rparr> \<and>
   (\<exists>ds. getWeeksOfMonth sampleHost ''May 2024'' = Some (map (rangeOf 2024 4) ds) \<and> ds \<noteq> [] \<and>
         fst (hd ds) = 1 \<and> snd (last ds) = 31)"
proof -
  have "year_of \<lparr>year_of = 2024, month_of = 4, date_of = 1, ms_of = 0\<rparr> < 0 \<or>
      99 < year_of \<lparr>year_of = 2024, month_of = 4, date_of = 1, ms_of = 0\<rparr>" by simp
  from week_spans [OF monthStart_may this] obtain ds where
    "getWeeksOfMonth sampleHost ''May 2024'' = Some (map (rangeOf 2024 4) ds)" "ds \<noteq> []"
    "fst (hd ds) = 1" "snd (last ds) = daysInMonth 2024 4"
    by auto
  moreover have "daysInMonth 2024 4 = 31" by (simp add: daysInMonth_def)
  ultimately show ?thesis using monthStart_may by (simp only:) blast
qed

text \<open>
  The claim as the specification states it lets only the last range be shorter than 7
  days. May 2024 starts on a Wednesday: its first range has 4 days and is not the last.
\<close>

theorem first_week_counterexample:
  "getWeeksOfMonth sampleHost ''May 2024'' =
     Some [\<lparr>wr_start = ''2024-05-01'', wr_end = ''2024-05-04''\<rparr>,
           \<lparr>wr_start = ''2024-05-05'', wr_end = ''2024-05-11''\<rparr>,
           \<lparr>wr_start = ''2024-05-12'', wr_end = ''2024-05-18''\<rparr>,
           \<lparr>wr_start = ''2024-05-19'', wr_end = ''2024-05-25''\<rparr>,
           \<lparr>wr_start = ''2024-05-26'', wr_end = ''2024-05-31''\<rparr>] \<and>
   getWeeksOfMonth sampleHost ''May 2024'' =
     Some (map (rangeOf 2024 4) [(1, 4), (5, 11), (12, 18), (19, 25), (26, 31)]) \<and>
   map spanOf [(1, 4), (5, 11), (12, 18), (19, 25), (26, 31)] = [4, 7, 7, 7, 6]"
proof -
  have "getWeeksOfMonth sampleHost ''May 2024'' =
      Some (map (rangeOf 2024 4) [(1, 4), (5, 11), (12, 18), (19, 25), (26, 31)])"
    using getWeeksOfMonth_ranges [OF monthStart_may] by (simp add: monthRanges_may [simplified])
  moreover have "map spanOf [(1, 4), (5, 11), (12, 18), (19, 25), (26, 31)] = [4, 7, 7, 7, (6::nat)]"
    by (simp add: spanOf_def)
  ultimately show ?thesis by (simp only: rangeOf_may)
qed

end
